theory Spec2Isabelle
  imports Complex_Main "HOL-Library.Multiset" "HOL-Library.AList"
begin

section \<open>Relay coordination by a steady-state genetic algorithm\<close>

text \<open>
  The two scripts \<^verbatim>\<open>scripts/ga_optimization_fast.py\<close> and
  \<^verbatim>\<open>scripts/optimize_all_scenarios.py\<close> hold the same genetic algorithm twice, with
  two differences: the first wraps the relay-time formula in a \<^verbatim>\<open>try/except\<close>, and the
  two update the stall counter at different places. One embedding covers both; the
  differing places branch on the script.

  Python floats are embedded as real numbers: arithmetic is exact, and the values
  \<^verbatim>\<open>inf\<close> and \<^verbatim>\<open>nan\<close> have no counterpart. The one place where the source starts from
  \<^verbatim>\<open>float("inf")\<close> is written with an option (\<open>None\<close> for infinity). Python exceptions
  are values of the type \<open>pyerror\<close>.
\<close>

datatype script = Fast | AllScenarios

datatype pyerror =
    ZeroDivisionError | OverflowError | TypeError | KeyError | IndexError
  | ValueError | NameError
  | NonFinite  \<comment> \<open>not a Python exception: a float left the finite reals\<close>

subsection \<open>Constants\<close>

definition K :: real where "K = 14 / 100"
definition N :: real where "N = 2 / 100"
definition CTI :: real where "CTI = 20 / 100"
definition MIN_TDS :: real where "MIN_TDS = 5 / 100"
definition MAX_TDS :: real where "MAX_TDS = 8 / 10"
definition MIN_PICKUP :: real where "MIN_PICKUP = 5 / 100"
definition MAX_PICKUP_FACTOR :: real where "MAX_PICKUP_FACTOR = 6 / 10"
definition MAX_TIME :: real where "MAX_TIME = 10"

lemmas consts_defs =
  K_def N_def CTI_def MIN_TDS_def MAX_TDS_def MIN_PICKUP_def MAX_PICKUP_FACTOR_def MAX_TIME_def

subsection \<open>The relay time\<close>

text \<open>
  The two statements that \<^verbatim>\<open>relay_time\<close> runs once \<^verbatim>\<open>I > PU\<close>:
  \<^verbatim>\<open>t = TDS * (K / ((I / PU) ** N - 1.0))\<close> and \<^verbatim>\<open>return min(max(t, 0.0), MAX_TIME * 10.0)\<close>.
  A float division by zero raises \<^verbatim>\<open>ZeroDivisionError\<close>; a negative float to the power
  0.02 is a complex number in Python 3, and \<^verbatim>\<open>max\<close> of a complex number and a float raises
  \<^verbatim>\<open>TypeError\<close>. The arithmetic is exact: over the reals the divisor \<open>(I / PU) ** N - 1\<close>
  is zero only at \<open>I = PU\<close>, whereas in floats the power rounds to \<open>1.0\<close> already for \<open>I\<close> a few
  units in the last place above \<open>PU\<close>, where the division raises too.
\<close>

definition relay_time_body :: "real \<Rightarrow> real \<Rightarrow> real \<Rightarrow> pyerror + real" where
  "relay_time_body I PU TDS =
     (if PU = 0 then Inl ZeroDivisionError
      else if I / PU < 0 then Inl TypeError
      else if (I / PU) powr N - 1 = 0 then Inl ZeroDivisionError
      else Inr (min (max (TDS * (K / ((I / PU) powr N - 1))) 0) (MAX_TIME * 10)))"

text \<open>
  \<^verbatim>\<open>relay_time\<close>: in \<^verbatim>\<open>ga_optimization_fast.py\<close> the body is inside
  \<^verbatim>\<open>try ... except (ZeroDivisionError, OverflowError): return MAX_TIME * 10.0\<close>; in
  \<^verbatim>\<open>optimize_all_scenarios.py\<close> it is not.
\<close>

definition relay_time :: "script \<Rightarrow> real \<Rightarrow> real \<Rightarrow> real \<Rightarrow> pyerror + real" where
  "relay_time sc I PU TDS =
     (if I \<le> PU then Inr (MAX_TIME * 10)
      else (case sc of
              Fast \<Rightarrow>
                (case relay_time_body I PU TDS of
                   Inl ZeroDivisionError \<Rightarrow> Inr (MAX_TIME * 10)
                 | Inl OverflowError \<Rightarrow> Inr (MAX_TIME * 10)
                 | r \<Rightarrow> r)
            | AllScenarios \<Rightarrow> relay_time_body I PU TDS))"


subsection \<open>Errors and Python containers\<close>

fun bindE :: "pyerror + 'a \<Rightarrow> ('a \<Rightarrow> pyerror + 'b) \<Rightarrow> pyerror + 'b" where
  "bindE (Inl e) f = Inl e"
| "bindE (Inr x) f = f x"

text \<open>\<^verbatim>\<open>xs[i]\<close> for an index \<open>i \<ge> 0\<close>, and \<^verbatim>\<open>xs[-1]\<close>.\<close>

definition py_get :: "'a list \<Rightarrow> nat \<Rightarrow> pyerror + 'a" where
  "py_get xs i = (if i < length xs then Inr (xs ! i) else Inl IndexError)"

definition py_last :: "'a list \<Rightarrow> pyerror + 'a" where
  "py_last xs = (if xs = [] then Inl IndexError else Inr (last xs))"

text \<open>\<^verbatim>\<open>d[k]\<close> on a dictionary kept as an association list in insertion order.\<close>

definition dict_get :: "('k \<times> 'v) list \<Rightarrow> 'k \<Rightarrow> pyerror + 'v" where
  "dict_get d k = (case map_of d k of None \<Rightarrow> Inl KeyError | Some v \<Rightarrow> Inr v)"

subsection \<open>Scenario data\<close>

record relay_pair =
  main_relay :: string
  backup_relay :: string
  Ishc_main :: real
  Ishc_backup :: real

record scenario_data =
  pairs :: "relay_pair list"
  relays :: "string list"

text \<open>
  \<^verbatim>\<open>relays = [r for r in scenario_data["relays"] if str(r).strip()]\<close>: a name is kept when
  it has a character that is not white space (the code points below 256 that
  \<^verbatim>\<open>str.isspace\<close> accepts).
\<close>

definition py_isspace :: "char \<Rightarrow> bool" where
  "py_isspace c = ((of_char c :: nat) \<in> {9, 10, 11, 12, 13, 28, 29, 30, 31, 32, 133, 160})"

definition valid_relays :: "string list \<Rightarrow> string list" where
  "valid_relays rs = filter (\<lambda>r. \<not> list_all py_isspace r) rs"

text \<open>\<^verbatim>\<open>idx = {relays[i]: i for i in range(nR)}\<close>: a later index overwrites an earlier one.\<close>

definition idx :: "string list \<Rightarrow> (string \<times> nat) list" where
  "idx rs = fold (\<lambda>i d. AList.update (rs ! i) i d) [0..<length rs] []"

subsection \<open>The fitness function (total miscoordination time)\<close>

text \<open>The operating times \<^verbatim>\<open>tM\<close> and \<^verbatim>\<open>tB\<close> of one pair, as the loop body computes them.\<close>

definition pair_times ::
  "script \<Rightarrow> string list \<Rightarrow> real list \<Rightarrow> relay_pair \<Rightarrow> pyerror + (real \<times> real)" where
  "pair_times sc rs individual p =
     (let nR = length rs; tds = take nR individual; pu = drop nR individual in
      bindE (dict_get (idx rs) (main_relay p)) (\<lambda>mi.
      bindE (dict_get (idx rs) (backup_relay p)) (\<lambda>bi.
      bindE (py_get pu mi) (\<lambda>pum.
      bindE (py_get tds mi) (\<lambda>tdm.
      bindE (relay_time sc (Ishc_main p) pum tdm) (\<lambda>tM.
      bindE (py_get pu bi) (\<lambda>pub.
      bindE (py_get tds bi) (\<lambda>tdb.
      bindE (relay_time sc (Ishc_backup p) pub tdb) (\<lambda>tB.
      Inr (tM, tB))))))))))"

definition add_penalties :: "real \<Rightarrow> real \<Rightarrow> real \<Rightarrow> real" where
  "add_penalties tmt tM tB =
     (let tmt1 = (if tB - tM < CTI then tmt + (CTI - (tB - tM)) else tmt)
      in if tM > MAX_TIME then tmt1 + (tM - MAX_TIME) else tmt1)"

fun fitness_loop ::
  "script \<Rightarrow> string list \<Rightarrow> real list \<Rightarrow> relay_pair list \<Rightarrow> real \<Rightarrow> pyerror + real" where
  "fitness_loop sc rs individual [] tmt = Inr tmt"
| "fitness_loop sc rs individual (p # ps) tmt =
     bindE (pair_times sc rs individual p) (\<lambda>(tM, tB).
       fitness_loop sc rs individual ps (add_penalties tmt tM tB))"

definition fitness :: "script \<Rightarrow> string list \<Rightarrow> relay_pair list \<Rightarrow> real list \<Rightarrow> pyerror + real" where
  "fitness sc rs ps individual = fitness_loop sc rs individual ps 0"

text \<open>A pair is coordinated and within the time limit.\<close>

definition pair_ok :: "script \<Rightarrow> string list \<Rightarrow> real list \<Rightarrow> relay_pair \<Rightarrow> bool" where
  "pair_ok sc rs individual p =
     (case pair_times sc rs individual p of
        Inl e \<Rightarrow> False
      | Inr (tM, tB) \<Rightarrow> CTI \<le> tB - tM \<and> tM \<le> MAX_TIME)"


subsection \<open>Bounds\<close>

text \<open>
  \<^verbatim>\<open>IscMin = [float("inf")] * nR\<close>, lowered by every pair in which the relay is main or
  backup. \<open>None\<close> stands for infinity.
\<close>

fun min_inf :: "real option \<Rightarrow> real \<Rightarrow> real option" where
  "min_inf None x = Some x"
| "min_inf (Some m) x = Some (min m x)"

fun IscMin_loop ::
  "string list \<Rightarrow> relay_pair list \<Rightarrow> real option list \<Rightarrow> pyerror + real option list" where
  "IscMin_loop rs [] IscMin = Inr IscMin"
| "IscMin_loop rs (p # ps) IscMin =
     bindE (dict_get (idx rs) (main_relay p)) (\<lambda>main_idx.
     bindE (dict_get (idx rs) (backup_relay p)) (\<lambda>backup_idx.
       let IscMin1 = IscMin[main_idx := min_inf (IscMin ! main_idx) (Ishc_main p)];
           IscMin2 = IscMin1[backup_idx := min_inf (IscMin1 ! backup_idx) (Ishc_backup p)]
       in IscMin_loop rs ps IscMin2))"

definition xmin_of :: "string list \<Rightarrow> real list" where
  "xmin_of rs = replicate (length rs) MIN_TDS @ replicate (length rs) MIN_PICKUP"

text \<open>
  \<^verbatim>\<open>xmax = [MAX_TDS] * nR + [MAX_PICKUP_FACTOR * IscMin[i] for i in range(nR)]\<close>. A relay
  that is in no pair keeps an infinite \<^verbatim>\<open>IscMin\<close>, and its upper bound and genes are
  infinite: the embedding stops there with \<open>NonFinite\<close>.
\<close>

definition xmax_of :: "string list \<Rightarrow> real option list \<Rightarrow> pyerror + real list" where
  "xmax_of rs IscMin =
     (if list_all (\<lambda>m. m \<noteq> None) IscMin
      then Inr (replicate (length rs) MAX_TDS @
                map (\<lambda>i. MAX_PICKUP_FACTOR * the (IscMin ! i)) [0..<length rs])
      else Inl NonFinite)"

definition bounds :: "string list \<Rightarrow> relay_pair list \<Rightarrow> pyerror + (real list \<times> real list)" where
  "bounds rs ps =
     bindE (IscMin_loop rs ps (replicate (length rs) None)) (\<lambda>IscMin.
     bindE (xmax_of rs IscMin) (\<lambda>xmax. Inr (xmin_of rs, xmax)))"

subsection \<open>The genetic algorithm\<close>

text \<open>
  The module constants \<^verbatim>\<open>GA_Ni\<close>, \<^verbatim>\<open>GA_iterno\<close>, \<^verbatim>\<open>GA_maxGen\<close> and \<^verbatim>\<open>GA_nMut\<close> are the
  fields of a configuration; the two scripts differ in them.
\<close>

record ga_config =
  GA_Ni :: nat
  GA_iterno :: nat
  GA_maxGen :: nat
  GA_nMut :: nat

definition fast_config :: ga_config where
  "fast_config = \<lparr>GA_Ni = 80, GA_iterno = 1000, GA_maxGen = 1000, GA_nMut = 2\<rparr>"

definition all_scenarios_config :: ga_config where
  "all_scenarios_config = \<lparr>GA_Ni = 80, GA_iterno = 50000, GA_maxGen = 50000, GA_nMut = 2\<rparr>"

fun config_of :: "script \<Rightarrow> ga_config" where
  "config_of Fast = fast_config"
| "config_of AllScenarios = all_scenarios_config"

text \<open>
  The calls of the module \<^verbatim>\<open>random\<close> are inputs. One generation draws
  \<^verbatim>\<open>s1, s2 = random.sample(range(GA_Ni), 2)\<close>, \<^verbatim>\<open>cp = random.randint(1, Nv - 1)\<close> and, for
  each child, the positions \<^verbatim>\<open>random.sample(range(Nv), GA_nMut)\<close> with one
  \<^verbatim>\<open>random.random()\<close> for each position.
\<close>

record draw =
  s1 :: nat
  s2 :: nat
  cp :: nat
  mut1 :: "(nat \<times> real) list"
  mut2 :: "(nat \<times> real) list"

text \<open>What the library guarantees of these draws.\<close>

definition valid_mut :: "nat \<Rightarrow> nat \<Rightarrow> (nat \<times> real) list \<Rightarrow> bool" where
  "valid_mut nmut Nv ms =
     (length ms = nmut \<and> distinct (map fst ms) \<and>
      list_all (\<lambda>(m, r). m < Nv \<and> 0 \<le> r \<and> r < 1) ms)"

definition valid_draw :: "ga_config \<Rightarrow> nat \<Rightarrow> draw \<Rightarrow> bool" where
  "valid_draw cfg Nv d =
     (s1 d < GA_Ni cfg \<and> s2 d < GA_Ni cfg \<and> s1 d \<noteq> s2 d \<and> 1 \<le> cp d \<and> cp d \<le> Nv - 1 \<and>
      valid_mut (GA_nMut cfg) Nv (mut1 d) \<and> valid_mut (GA_nMut cfg) Nv (mut2 d))"

record ga_state =
  X :: "real list list"
  X_best :: "real list"
  stall :: nat

text \<open>
  \<^verbatim>\<open>individual = [xmin[j] + random.random() * (xmax[j] - xmin[j]) for j in range(Nv)]\<close>,
  with the draws of this individual given as a function of the gene.
\<close>

definition new_individual :: "real list \<Rightarrow> real list \<Rightarrow> nat \<Rightarrow> (nat \<Rightarrow> real) \<Rightarrow> real list" where
  "new_individual xmin xmax Nv r = map (\<lambda>j. xmin ! j + r j * (xmax ! j - xmin ! j)) [0..<Nv]"

fun init_loop ::
  "script \<Rightarrow> string list \<Rightarrow> relay_pair list \<Rightarrow> real list \<Rightarrow> real list \<Rightarrow>
   (nat \<Rightarrow> nat \<Rightarrow> real) \<Rightarrow> nat list \<Rightarrow> pyerror + real list list" where
  "init_loop sc rs ps xmin xmax rinit [] = Inr []"
| "init_loop sc rs ps xmin xmax rinit (k # ks) =
     (let individual = new_individual xmin xmax (2 * length rs) (rinit k) in
      bindE (fitness sc rs ps individual) (\<lambda>f.
      bindE (init_loop sc rs ps xmin xmax rinit ks) (\<lambda>rows.
      Inr ((individual @ [f]) # rows))))"

text \<open>\<^verbatim>\<open>X.sort(key=lambda r: r[Nv])\<close>: a stable sort on the fitness slot.\<close>

definition sort_pop :: "nat \<Rightarrow> real list list \<Rightarrow> real list list" where
  "sort_pop Nv Xs = sort_key (\<lambda>r. r ! Nv) Xs"

definition initial_state ::
  "script \<Rightarrow> ga_config \<Rightarrow> string list \<Rightarrow> relay_pair list \<Rightarrow> real list \<Rightarrow> real list \<Rightarrow>
   (nat \<Rightarrow> nat \<Rightarrow> real) \<Rightarrow> pyerror + ga_state" where
  "initial_state sc cfg rs ps xmin xmax rinit =
     bindE (init_loop sc rs ps xmin xmax rinit [0..<GA_Ni cfg]) (\<lambda>rows.
       let Xs = sort_pop (2 * length rs) rows in
       bindE (py_get Xs 0) (\<lambda>b. Inr \<lparr>X = Xs, X_best = b, stall = 0\<rparr>))"

text \<open>\<^verbatim>\<open>mutate\<close>: each drawn position is set to a fresh value within its bounds.\<close>

fun mutate :: "real list \<Rightarrow> real list \<Rightarrow> (nat \<times> real) list \<Rightarrow> real list \<Rightarrow> pyerror + real list" where
  "mutate xmin xmax [] child = Inr child"
| "mutate xmin xmax ((m, r) # ms) child =
     (if m < length child \<and> m < length xmin \<and> m < length xmax
      then mutate xmin xmax ms (child[m := xmin ! m + r * (xmax ! m - xmin ! m)])
      else Inl IndexError)"

text \<open>
  Selection, crossover, mutation and evaluation: the list \<^verbatim>\<open>candidates\<close> before it is
  sorted. \<^verbatim>\<open>random.sample\<close> raises \<^verbatim>\<open>ValueError\<close> when asked for more elements than the
  range has.
\<close>

definition candidates ::
  "script \<Rightarrow> ga_config \<Rightarrow> string list \<Rightarrow> relay_pair list \<Rightarrow> real list \<Rightarrow> real list \<Rightarrow>
   real list list \<Rightarrow> draw \<Rightarrow> pyerror + ((real list \<times> real) \<times> (real list \<times> real))" where
  "candidates sc cfg rs ps xmin xmax Xs d =
     (let Nv = 2 * length rs in
      if GA_Ni cfg < 2 then Inl ValueError
      else
      bindE (py_get Xs (s1 d)) (\<lambda>row1.
      bindE (py_get Xs (s2 d)) (\<lambda>row2.
        let P1 = take Nv row1; P2 = take Nv row2;
            H1 = take (cp d) P1 @ drop (cp d) P2;
            H2 = take (cp d) P2 @ drop (cp d) P1
        in
        if Nv < GA_nMut cfg then Inl ValueError
        else
        bindE (mutate xmin xmax (mut1 d) H1) (\<lambda>H1'.
        bindE (mutate xmin xmax (mut2 d) H2) (\<lambda>H2'.
        bindE (fitness sc rs ps H1') (\<lambda>f1.
        bindE (fitness sc rs ps H2') (\<lambda>f2.
        Inr ((H1', f1), (H2', f2)))))))))"

text \<open>
  \<^verbatim>\<open>candidates.sort(key=lambda t: t[1]); child, fchild = candidates[0]\<close>: the sort is
  stable, so the first child wins a tie.
\<close>

definition best_child ::
  "script \<Rightarrow> ga_config \<Rightarrow> string list \<Rightarrow> relay_pair list \<Rightarrow> real list \<Rightarrow> real list \<Rightarrow>
   real list list \<Rightarrow> draw \<Rightarrow> pyerror + (real list \<times> real)" where
  "best_child sc cfg rs ps xmin xmax Xs d =
     bindE (candidates sc cfg rs ps xmin xmax Xs d) (\<lambda>(c1, c2).
       Inr (if snd c1 \<le> snd c2 then c1 else c2))"

text \<open>
  \<^verbatim>\<open>any(all(abs(child[j] - X[k][j]) < 1e-12 for j in range(Nv)) for k in range(GA_Ni))\<close>.
  The population has \<^verbatim>\<open>GA_Ni\<close> rows of \<^verbatim>\<open>Nv + 1\<close> numbers throughout a run
  (lemma \<open>generation_shape\<close>), so the indices are in range.
\<close>

definition near :: "nat \<Rightarrow> real list \<Rightarrow> real list \<Rightarrow> bool" where
  "near Nv child row = list_all (\<lambda>j. \<bar>child ! j - row ! j\<bar> < 1 / 10 ^ 12) [0..<Nv]"

definition duplicate :: "ga_config \<Rightarrow> nat \<Rightarrow> real list \<Rightarrow> real list list \<Rightarrow> bool" where
  "duplicate cfg Nv child Xs = list_ex (\<lambda>k. near Nv child (Xs ! k)) [0..<GA_Ni cfg]"

text \<open>The replacement gate.\<close>

definition replaces :: "ga_config \<Rightarrow> nat \<Rightarrow> real list list \<Rightarrow> real list \<Rightarrow> real \<Rightarrow> bool" where
  "replaces cfg Nv Xs child fchild = (fchild < last Xs ! Nv \<and> \<not> duplicate cfg Nv child Xs)"

text \<open>The update of the best solution and of the stall counter.\<close>

definition update_best :: "nat \<Rightarrow> real list list \<Rightarrow> ga_state \<Rightarrow> pyerror + ga_state" where
  "update_best Nv Xs st =
     bindE (py_get Xs 0) (\<lambda>b.
       if b ! Nv < X_best st ! Nv
       then Inr \<lparr>X = Xs, X_best = b, stall = 0\<rparr>
       else Inr \<lparr>X = Xs, X_best = X_best st, stall = stall st + 1\<rparr>)"

text \<open>
  One pass of the body of \<^verbatim>\<open>for gen in range(1, GA_maxGen + 1)\<close>, up to the stopping
  tests. In \<^verbatim>\<open>ga_optimization_fast.py\<close> the sort and the update of the best solution
  follow the replacement test; in \<^verbatim>\<open>optimize_all_scenarios.py\<close> they are inside it.
\<close>

definition generation ::
  "script \<Rightarrow> ga_config \<Rightarrow> string list \<Rightarrow> relay_pair list \<Rightarrow> real list \<Rightarrow> real list \<Rightarrow>
   ga_state \<Rightarrow> draw \<Rightarrow> pyerror + ga_state" where
  "generation sc cfg rs ps xmin xmax st d =
     (let Nv = 2 * length rs in
      bindE (best_child sc cfg rs ps xmin xmax (X st) d) (\<lambda>(child, fchild).
      bindE (py_last (X st)) (\<lambda>worst.
        let Xs = (if replaces cfg Nv (X st) child fchild
                  then (X st)[length (X st) - 1 := child @ [fchild]] else X st)
        in (case sc of
              Fast \<Rightarrow> update_best Nv (sort_pop Nv Xs) st
            | AllScenarios \<Rightarrow>
                if replaces cfg Nv (X st) child fchild
                then update_best Nv (sort_pop Nv Xs) st
                else Inr st))))"

text \<open>The stopping tests at the end of the loop body.\<close>

definition stops :: "ga_config \<Rightarrow> nat \<Rightarrow> ga_state \<Rightarrow> bool" where
  "stops cfg Nv st = (X_best st ! Nv = 0 \<or> GA_iterno cfg \<le> stall st)"

text \<open>
  The loop, from generation \<open>gen\<close> on; the result is the last state with the value that
  \<^verbatim>\<open>gen\<close> has after the loop.
\<close>

function ga_loop ::
  "script \<Rightarrow> ga_config \<Rightarrow> string list \<Rightarrow> relay_pair list \<Rightarrow> real list \<Rightarrow> real list \<Rightarrow>
   (nat \<Rightarrow> draw) \<Rightarrow> nat \<Rightarrow> ga_state \<Rightarrow> pyerror + (ga_state \<times> nat)" where
  "ga_loop sc cfg rs ps xmin xmax rgen gen st =
     (if GA_maxGen cfg < gen then Inr (st, gen - 1)
      else (case generation sc cfg rs ps xmin xmax st (rgen gen) of
              Inl e \<Rightarrow> Inl e
            | Inr st' \<Rightarrow>
                if stops cfg (2 * length rs) st' then Inr (st', gen)
                else ga_loop sc cfg rs ps xmin xmax rgen (gen + 1) st'))"
  by pat_completeness auto
termination
  by (relation "measure (\<lambda>(sc, cfg, rs, ps, xmin, xmax, rgen, gen, st). GA_maxGen cfg + 1 - gen)")
     auto

declare ga_loop.simps [simp del]

text \<open>
  The run up to the end of the loop. With \<^verbatim>\<open>GA_maxGen = 0\<close> the loop variable is never
  bound and the report after the loop raises \<^verbatim>\<open>NameError\<close>.
\<close>

definition ga_run ::
  "script \<Rightarrow> ga_config \<Rightarrow> string list \<Rightarrow> relay_pair list \<Rightarrow>
   (nat \<Rightarrow> nat \<Rightarrow> real) \<Rightarrow> (nat \<Rightarrow> draw) \<Rightarrow> pyerror + (ga_state \<times> nat)" where
  "ga_run sc cfg rs ps rinit rgen =
     bindE (bounds rs ps) (\<lambda>(xmin, xmax).
     bindE (initial_state sc cfg rs ps xmin xmax rinit) (\<lambda>st0.
       if GA_maxGen cfg = 0 then Inl NameError
       else ga_loop sc cfg rs ps xmin xmax rgen 1 st0))"

subsection \<open>The result\<close>

text \<open>\<^verbatim>\<open>round(x, 5)\<close> on an exact number: to the nearest multiple of 0.00001, ties to even.\<close>

definition round5 :: "real \<Rightarrow> real" where
  "round5 x =
     (let y = x * 100000; f = \<lfloor>y\<rfloor> in
      real_of_int (if y - real_of_int f < 1 / 2 then f
                   else if 1 / 2 < y - real_of_int f then f + 1
                   else if even f then f else f + 1) / 100000)"

record setting =
  TDS :: real
  pickup :: real

definition optimized_of :: "string list \<Rightarrow> real list \<Rightarrow> (string \<times> setting) list" where
  "optimized_of rs X_best_row =
     (let nR = length rs; best = take (2 * nR) X_best_row;
          TDSbest = take nR best; PUbest = drop nR best
      in fold (\<lambda>r d. AList.update (rs ! r)
                 \<lparr>TDS = round5 (TDSbest ! r), pickup = round5 (PUbest ! r)\<rparr> d) [0..<nR] [])"

text \<open>
  \<^verbatim>\<open>genetic_algorithm_optimization\<close> (\<^verbatim>\<open>genetic_algorithm\<close> in
  \<^verbatim>\<open>optimize_all_scenarios.py\<close>): the dictionary of the optimized settings.
\<close>

definition genetic_algorithm_optimization ::
  "script \<Rightarrow> ga_config \<Rightarrow> scenario_data \<Rightarrow> (nat \<Rightarrow> nat \<Rightarrow> real) \<Rightarrow> (nat \<Rightarrow> draw) \<Rightarrow>
   pyerror + (string \<times> setting) list" where
  "genetic_algorithm_optimization sc cfg scenario rinit rgen =
     (let rs = valid_relays (relays scenario); nR = length rs in
      if nR = 0 then Inr []
      else bindE (ga_run sc cfg rs (pairs scenario) rinit rgen) (\<lambda>(st, gen).
             Inr (optimized_of rs (X_best st))))"


section \<open>Predicates used in the statements\<close>

text \<open>The dictionary \<^verbatim>\<open>idx\<close> after the first \<open>n\<close> relays.\<close>

definition idx_upto :: "string list \<Rightarrow> nat \<Rightarrow> (string \<times> nat) list" where
  "idx_upto rs n = fold (\<lambda>i d. AList.update (rs ! i) i d) [0..<n] []"

text \<open>Every pair names relays of the scenario (the grouping step builds scenarios so).\<close>

definition wf_pairs :: "string list \<Rightarrow> relay_pair list \<Rightarrow> bool" where
  "wf_pairs rs ps = list_all (\<lambda>p. main_relay p \<in> set rs \<and> backup_relay p \<in> set rs) ps"

text \<open>An individual of \<open>2 * nR\<close> genes whose pickup genes are positive.\<close>

definition pickups_pos :: "string list \<Rightarrow> real list \<Rightarrow> bool" where
  "pickups_pos rs individual =
     (length individual = 2 * length rs \<and> list_all (\<lambda>x. 0 < x) (drop (length rs) individual))"

text \<open>The population has \<^verbatim>\<open>GA_Ni\<close> rows, each of \<^verbatim>\<open>Nv\<close> genes and the fitness slot.\<close>

definition pop_shape :: "ga_config \<Rightarrow> nat \<Rightarrow> real list list \<Rightarrow> bool" where
  "pop_shape cfg Nv Xs = (length Xs = GA_Ni cfg \<and> list_all (\<lambda>r. length r = Nv + 1) Xs)"

text \<open>The population is in ascending order of the fitness slot.\<close>

definition sorted_pop :: "nat \<Rightarrow> real list list \<Rightarrow> bool" where
  "sorted_pop Nv Xs = sorted (map (\<lambda>r. r ! Nv) Xs)"

text \<open>No two rows at different places have all \<^verbatim>\<open>Nv\<close> genes within \<^verbatim>\<open>1e-12\<close>.\<close>

fun no_near_dups :: "nat \<Rightarrow> real list list \<Rightarrow> bool" where
  "no_near_dups Nv [] = True"
| "no_near_dups Nv (r # rows) = (list_all (\<lambda>q. \<not> near Nv r q) rows \<and> no_near_dups Nv rows)"

text \<open>What \<^verbatim>\<open>random.random()\<close> guarantees of the draws of the initialization.\<close>

definition valid_rinit :: "(nat \<Rightarrow> nat \<Rightarrow> real) \<Rightarrow> bool" where
  "valid_rinit rinit = (\<forall>k j. 0 \<le> rinit k j \<and> rinit k j < 1)"




text \<open>
  The states of a run: the initial state, and the state after a generation from such a
  state, for any draws the library can return. The stopping tests only end a run
  earlier, so every state of a run of the loop is among them (lemma \<open>ga_run_reach\<close>).
\<close>

inductive ga_reach ::
  "script \<Rightarrow> ga_config \<Rightarrow> string list \<Rightarrow> relay_pair list \<Rightarrow> real list \<Rightarrow> real list \<Rightarrow>
   ga_state \<Rightarrow> bool"
  for sc cfg rs ps xmin xmax where
  reach_init:
    "valid_rinit rinit \<Longrightarrow> initial_state sc cfg rs ps xmin xmax rinit = Inr st \<Longrightarrow>
     ga_reach sc cfg rs ps xmin xmax st"
| reach_step:
    "ga_reach sc cfg rs ps xmin xmax st \<Longrightarrow> valid_draw cfg (2 * length rs) d \<Longrightarrow>
     generation sc cfg rs ps xmin xmax st d = Inr st' \<Longrightarrow>
     ga_reach sc cfg rs ps xmin xmax st'"

text \<open>The factor of the time dial in the relay time.\<close>

definition curve :: "real \<Rightarrow> real \<Rightarrow> real" where
  "curve I PU = K / ((I / PU) powr N - 1)"

text \<open>Every gene of a row, and of every row, is positive.\<close>

definition pos_row :: "nat \<Rightarrow> real list \<Rightarrow> bool" where
  "pos_row Nv row = list_all (\<lambda>j. 0 < row ! j) [0..<Nv]"

definition pop_pos :: "nat \<Rightarrow> real list list \<Rightarrow> bool" where
  "pop_pos Nv Xs = list_all (pos_row Nv) Xs"

text \<open>Bounds for \<^verbatim>\<open>Nv\<close> genes, all of them positive.\<close>

definition bounds_pos :: "real list \<Rightarrow> real list \<Rightarrow> nat \<Rightarrow> bool" where
  "bounds_pos xmin xmax Nv =
     (length xmin = Nv \<and> length xmax = Nv \<and> list_all (\<lambda>j. 0 < xmin ! j \<and> 0 < xmax ! j) [0..<Nv])"

text \<open>
  A scenario as the grouping step builds it: distinct relays, every pair between relays
  of the scenario, every relay in a pair, positive fault currents.
\<close>

definition wf_scenario :: "string list \<Rightarrow> relay_pair list \<Rightarrow> bool" where
  "wf_scenario rs ps =
     (distinct rs \<and> wf_pairs rs ps \<and>
      list_all (\<lambda>r. list_ex (\<lambda>p. main_relay p = r \<or> backup_relay p = r) ps) rs \<and>
      list_all (\<lambda>p. 0 < Ishc_main p \<and> 0 < Ishc_backup p) ps)"

text \<open>An entry of \<^verbatim>\<open>IscMin\<close> is infinite or positive.\<close>

definition some_pos :: "real option \<Rightarrow> bool" where
  "some_pos m = (case m of None \<Rightarrow> True | Some x \<Rightarrow> 0 < x)"

section \<open>Examples\<close>

text \<open>A scenario of two relays and one pair, both fault currents 1000.\<close>

definition ex_rs :: "string list" where
  "ex_rs = [''R1'', ''R2'']"

definition ex_pair :: relay_pair where
  "ex_pair = \<lparr>main_relay = ''R1'', backup_relay = ''R2'', Ishc_main = 1000, Ishc_backup = 1000\<rparr>"

text \<open>
  A small configuration: two individuals, a stagnation limit of one generation, at most
  two generations.
\<close>

definition ex_cfg :: ga_config where
  "ex_cfg = \<lparr>GA_Ni = 2, GA_iterno = 1, GA_maxGen = 2, GA_nMut = 2\<rparr>"

text \<open>The bounds of the example scenario.\<close>

definition ex_xmin :: "real list" where
  "ex_xmin = [1 / 20, 1 / 20, 1 / 20, 1 / 20]"

definition ex_xmax :: "real list" where
  "ex_xmax = [4 / 5, 4 / 5, 600, 600]"

text \<open>
  The individual in the middle of the bounds (every draw 0.5), of fitness 0.2; one with
  time dials 0.05 and 0.65 (draws 0 and 0.8), of fitness 0; one with every draw 0.45, of
  fitness 0.2.
\<close>

definition ex_mid :: "real list" where
  "ex_mid = [17 / 40, 17 / 40, 12001 / 40, 12001 / 40]"

definition ex_better :: "real list" where
  "ex_better = [1 / 20, 13 / 20, 12001 / 40, 12001 / 40]"

definition ex_other :: "real list" where
  "ex_other = [31 / 80, 31 / 80, 108011 / 400, 108011 / 400]"

text \<open>
  First run: every draw of the initialization is 0.5, so the two initial individuals are
  \<open>ex_mid\<close>. The draws \<open>ex_draw_same\<close> make both children \<open>ex_mid\<close> again; the draws
  \<open>ex_draw_better\<close> make the first child \<open>ex_better\<close>.
\<close>

definition ex_rinit :: "nat \<Rightarrow> nat \<Rightarrow> real" where
  "ex_rinit k j = 1 / 2"

definition ex_draw_same :: draw where
  "ex_draw_same = \<lparr>s1 = 0, s2 = 1, cp = 1,
     mut1 = [(0, 1 / 2), (1, 1 / 2)], mut2 = [(0, 1 / 2), (1, 1 / 2)]\<rparr>"

definition ex_draw_better :: draw where
  "ex_draw_better = \<lparr>s1 = 0, s2 = 1, cp = 1,
     mut1 = [(0, 0), (1, 4 / 5)], mut2 = [(0, 1 / 2), (1, 1 / 2)]\<rparr>"

definition ex_rgen :: "nat \<Rightarrow> draw" where
  "ex_rgen n = ex_draw_same"

text \<open>
  The initial state of the first run; the same with the stall counter at 1; and the
  state after a generation with the draws \<open>ex_draw_better\<close>.
\<close>

definition ex_st0 :: ga_state where
  "ex_st0 = \<lparr>X = [ex_mid @ [1 / 5], ex_mid @ [1 / 5]], X_best = ex_mid @ [1 / 5], stall = 0\<rparr>"

definition ex_st0_stalled :: ga_state where
  "ex_st0_stalled =
     \<lparr>X = [ex_mid @ [1 / 5], ex_mid @ [1 / 5]], X_best = ex_mid @ [1 / 5], stall = 1\<rparr>"

definition ex_st1 :: ga_state where
  "ex_st1 = \<lparr>X = [ex_better @ [0], ex_mid @ [1 / 5]], X_best = ex_better @ [0], stall = 0\<rparr>"

text \<open>
  Second run: the initial individuals are \<open>ex_other\<close> and \<open>ex_mid\<close>, and the first
  generation inserts \<open>ex_better\<close>.
\<close>

definition ex_rinit2 :: "nat \<Rightarrow> nat \<Rightarrow> real" where
  "ex_rinit2 k j = (if k = 0 then 9 / 20 else 1 / 2)"

definition ex_draw2 :: draw where
  "ex_draw2 = \<lparr>s1 = 0, s2 = 1, cp = 2,
     mut1 = [(0, 0), (1, 4 / 5)], mut2 = [(0, 1 / 2), (1, 1 / 2)]\<rparr>"

definition ex_rgen2 :: "nat \<Rightarrow> draw" where
  "ex_rgen2 n = ex_draw2"

definition ex_st2 :: ga_state where
  "ex_st2 = \<lparr>X = [ex_other @ [1 / 5], ex_mid @ [1 / 5]], X_best = ex_other @ [1 / 5], stall = 0\<rparr>"

definition ex_st3 :: ga_state where
  "ex_st3 = \<lparr>X = [ex_better @ [0], ex_other @ [1 / 5]], X_best = ex_better @ [0], stall = 0\<rparr>"





text \<open>Scenarios without relays, with blank relay names only, and with a relay but no pair.\<close>

definition empty_scenario :: scenario_data where
  "empty_scenario = \<lparr>pairs = [], relays = []\<rparr>"

definition blank_scenario :: scenario_data where
  "blank_scenario = \<lparr>pairs = [ex_pair], relays = [''  '', '''']\<rparr>"

definition pairless_scenario :: scenario_data where
  "pairless_scenario = \<lparr>pairs = [], relays = [''R1'']\<rparr>"

section \<open>The relay time\<close>

lemma bindE_eq_Inr: "bindE m f = Inr y \<longleftrightarrow> (\<exists>x. m = Inr x \<and> f x = Inr y)"
  by (cases m) simp_all

lemma relay_time_sentinel: "I \<le> PU \<Longrightarrow> relay_time sc I PU t = Inr (MAX_TIME * 10)"
  by (simp add: relay_time_def)

lemma powr_N_gt_1: "0 < PU \<Longrightarrow> PU < I \<Longrightarrow> 1 < (I / PU) powr N"
  by (simp add: N_def)

lemma relay_time_body_pos:
  assumes "0 < PU" "PU < I"
  shows "relay_time_body I PU t =
         Inr (min (max (t * (K / ((I / PU) powr N - 1))) 0) (MAX_TIME * 10))"
proof -
  have "1 < (I / PU) powr N" using assms by (rule powr_N_gt_1)
  then have a: "(I / PU) powr N - 1 \<noteq> 0" by simp
  have b: "\<not> I / PU < 0" using assms by (simp add: divide_less_0_iff)
  have c: "PU \<noteq> 0" using assms by simp
  show ?thesis unfolding relay_time_body_def by (simp only: a b c if_False)
qed

text \<open>With a positive pickup both scripts return a time between 0 and the sentinel.\<close>

lemma relay_time_pos:
  assumes "0 < PU"
  shows "\<exists>t'. relay_time sc I PU t = Inr t' \<and> 0 \<le> t' \<and> t' \<le> MAX_TIME * 10"
proof (cases "I \<le> PU")
  case True
  then show ?thesis by (simp add: relay_time_def MAX_TIME_def)
next
  case False
  then have "relay_time_body I PU t =
      Inr (min (max (t * (K / ((I / PU) powr N - 1))) 0) (MAX_TIME * 10))"
    using assms relay_time_body_pos by simp
  then show ?thesis using False
    by (cases sc) (simp_all add: relay_time_def MAX_TIME_def)
qed

text \<open>
  C5: \<^verbatim>\<open>relay_time(I, PU, TDS)\<close> returns exactly the sentinel \<^verbatim>\<open>MAX_TIME * 10\<close> (100)
  whenever \<open>I \<le> PU\<close>, in both scripts and for every time dial.
\<close>

theorem relay_time_at_or_below_pickup:
  "I \<le> PU \<Longrightarrow> relay_time sc I PU t = Inr (MAX_TIME * 10) \<and> MAX_TIME * 10 = 100"
  by (simp add: relay_time_def MAX_TIME_def)

theorem relay_time_at_or_below_pickup_witness:
  "(500::real) \<le> 600 \<and> relay_time AllScenarios 500 600 (1 / 2) = Inr 100"
  using relay_time_at_or_below_pickup [of 500 600 AllScenarios "1 / 2"]
  by (simp add: MAX_TIME_def)

text \<open>
  C6: \<^verbatim>\<open>relay_time\<close> never lets an arithmetic error out. In
  \<^verbatim>\<open>optimize_all_scenarios.py\<close> it does: the formula is not inside a \<^verbatim>\<open>try\<close>, and a
  zero divisor raises \<^verbatim>\<open>ZeroDivisionError\<close>, where \<^verbatim>\<open>ga_optimization_fast.py\<close> returns
  the sentinel.
\<close>

theorem relay_time_all_scenarios_raises:
  "relay_time AllScenarios 1 0 (1 / 2) = Inl ZeroDivisionError \<and>
   relay_time Fast 1 0 (1 / 2) = Inr (MAX_TIME * 10)"
  by (simp add: relay_time_def relay_time_body_def)

section \<open>The index of the relays\<close>

lemma idx_upto_0: "idx_upto rs 0 = []"
  by (simp add: idx_upto_def)

lemma idx_upto_Suc: "idx_upto rs (Suc n) = AList.update (rs ! n) n (idx_upto rs n)"
  by (simp add: idx_upto_def)

lemma map_of_idx_upto_Suc:
  "map_of (idx_upto rs (Suc n)) name =
   (if name = rs ! n then Some n else map_of (idx_upto rs n) name)"
  by (simp add: idx_upto_Suc update_conv')

lemma idx_upto_sound:
  "map_of (idx_upto rs n) name = Some i \<Longrightarrow> i < n \<and> rs ! i = name"
proof (induction n)
  case 0
  then show ?case by (simp add: idx_upto_0)
next
  case (Suc n)
  show ?case
  proof (cases "name = rs ! n")
    case True
    with Suc.prems show ?thesis by (simp add: map_of_idx_upto_Suc)
  next
    case False
    with Suc.prems have "map_of (idx_upto rs n) name = Some i"
      by (simp add: map_of_idx_upto_Suc)
    from Suc.IH[OF this] show ?thesis by simp
  qed
qed

lemma idx_upto_complete:
  "j < n \<Longrightarrow> \<exists>i. map_of (idx_upto rs n) (rs ! j) = Some i"
proof (induction n)
  case 0
  then show ?case by simp
next
  case (Suc n)
  show ?case
  proof (cases "rs ! j = rs ! n")
    case True
    then show ?thesis by (simp add: map_of_idx_upto_Suc)
  next
    case False
    with Suc.prems have "j < n" by (cases "j = n") simp_all
    from Suc.IH[OF this] False show ?thesis by (simp add: map_of_idx_upto_Suc)
  qed
qed

lemma idx_sound: "map_of (idx rs) name = Some i \<Longrightarrow> i < length rs \<and> rs ! i = name"
  using idx_upto_sound[of rs "length rs" name i] by (simp add: idx_def idx_upto_def)

lemma idx_complete:
  assumes "name \<in> set rs"
  shows "\<exists>i<length rs. map_of (idx rs) name = Some i"
proof -
  from assms obtain j where j: "j < length rs" "rs ! j = name" by (auto simp: in_set_conv_nth)
  then obtain i where i: "map_of (idx rs) name = Some i"
    using idx_upto_complete[of j "length rs" rs] by (auto simp: idx_def idx_upto_def)
  then have "i < length rs" using idx_sound by blast
  with i show ?thesis by blast
qed

lemma dict_get_idx: "name \<in> set rs \<Longrightarrow> \<exists>i<length rs. dict_get (idx rs) name = Inr i"
  using idx_complete[of name rs] by (auto simp: dict_get_def)

lemma dict_get_idx_sound: "dict_get (idx rs) name = Inr i \<Longrightarrow> i < length rs \<and> rs ! i = name"
  using idx_sound[of rs name i] by (auto simp: dict_get_def split: option.splits)

section \<open>The fitness function\<close>

lemma add_penalties_ge: "tmt \<le> add_penalties tmt tM tB"
  by (simp add: add_penalties_def Let_def)

lemma add_penalties_eq_iff:
  "add_penalties tmt tM tB = tmt \<longleftrightarrow> CTI \<le> tB - tM \<and> tM \<le> MAX_TIME"
  by (auto simp: add_penalties_def Let_def)

lemma fitness_loop_Cons_Inr:
  assumes "fitness_loop sc rs ind (p # ps) acc = Inr v"
  obtains tM tB where "pair_times sc rs ind p = Inr (tM, tB)"
    and "fitness_loop sc rs ind ps (add_penalties acc tM tB) = Inr v"
proof (cases "pair_times sc rs ind p")
  case (Inl e)
  with assms show ?thesis by simp
next
  case (Inr tt)
  obtain tM tB where "tt = (tM, tB)" by (cases tt)
  with Inr assms that show ?thesis by simp
qed

lemma fitness_loop_acc:
  "fitness_loop sc rs ind ps acc = Inr v \<Longrightarrow>
   acc \<le> v \<and> (v = acc \<longleftrightarrow> (\<forall>p\<in>set ps. pair_ok sc rs ind p))"
proof (induction ps arbitrary: acc)
  case Nil
  then show ?case by auto
next
  case (Cons p ps)
  from Cons.prems obtain tM tB where pt: "pair_times sc rs ind p = Inr (tM, tB)"
    and rest: "fitness_loop sc rs ind ps (add_penalties acc tM tB) = Inr v"
    by (rule fitness_loop_Cons_Inr)
  from Cons.IH[OF rest] have ih1: "add_penalties acc tM tB \<le> v"
    and ih2: "v = add_penalties acc tM tB \<longleftrightarrow> (\<forall>p\<in>set ps. pair_ok sc rs ind p)"
    by simp_all
  have ge: "acc \<le> add_penalties acc tM tB" by (rule add_penalties_ge)
  have okp: "pair_ok sc rs ind p \<longleftrightarrow> add_penalties acc tM tB = acc"
    by (simp add: pair_ok_def pt add_penalties_eq_iff)
  have a: "acc \<le> v" using ih1 ge by linarith
  have b: "v = acc \<longleftrightarrow> add_penalties acc tM tB = acc \<and> v = add_penalties acc tM tB"
    using ih1 ge by linarith
  show ?case using a b ih2 okp by simp
qed

lemma fitness_loop_mono: "fitness_loop sc rs ind ps acc = Inr v \<Longrightarrow> acc \<le> v"
  using fitness_loop_acc by blast

lemma pair_times_total:
  assumes "main_relay p \<in> set rs" "backup_relay p \<in> set rs" "pickups_pos rs ind"
  shows "\<exists>tM tB. pair_times sc rs ind p = Inr (tM, tB)"
proof -
  obtain mi where mi: "mi < length rs" "dict_get (idx rs) (main_relay p) = Inr mi"
    using dict_get_idx[OF assms(1)] by auto
  obtain bi where bi: "bi < length rs" "dict_get (idx rs) (backup_relay p) = Inr bi"
    using dict_get_idx[OF assms(2)] by auto
  have len: "length ind = 2 * length rs" using assms(3) by (simp add: pickups_pos_def)
  have pos: "\<And>i. i < length rs \<Longrightarrow> 0 < drop (length rs) ind ! i"
    using assms(3) by (simp add: pickups_pos_def list_all_length)
  obtain tM where tM: "relay_time sc (Ishc_main p) (drop (length rs) ind ! mi)
      (take (length rs) ind ! mi) = Inr tM"
    using relay_time_pos[OF pos[OF mi(1)]] by blast
  obtain tB where tB: "relay_time sc (Ishc_backup p) (drop (length rs) ind ! bi)
      (take (length rs) ind ! bi) = Inr tB"
    using relay_time_pos[OF pos[OF bi(1)]] by blast
  have "pair_times sc rs ind p = Inr (tM, tB)"
    unfolding pair_times_def Let_def using mi bi len tM tB by (simp add: py_get_def)
  then show ?thesis by blast
qed

lemma fitness_loop_total:
  "wf_pairs rs ps \<Longrightarrow> pickups_pos rs ind \<Longrightarrow> \<exists>v. fitness_loop sc rs ind ps acc = Inr v"
proof (induction ps arbitrary: acc)
  case Nil
  then show ?case by simp
next
  case (Cons p ps)
  from Cons.prems(1) have p: "main_relay p \<in> set rs" "backup_relay p \<in> set rs"
    and ps: "wf_pairs rs ps" by (simp_all add: wf_pairs_def)
  obtain tM tB where pt: "pair_times sc rs ind p = Inr (tM, tB)"
    using pair_times_total[OF p Cons.prems(2)] by blast
  from Cons.IH[OF ps Cons.prems(2)] obtain v
    where "fitness_loop sc rs ind ps (add_penalties acc tM tB) = Inr v" by blast
  with pt show ?case by simp
qed

text \<open>
  In exact arithmetic the fitness returns for every individual with positive pickups.
  For floats this carries over to \<^verbatim>\<open>ga_optimization_fast.py\<close> only, which catches the
  division by zero of a rounded power; \<^verbatim>\<open>optimize_all_scenarios.py\<close> does not.
\<close>

lemma fitness_total:
  "wf_pairs rs ps \<Longrightarrow> pickups_pos rs ind \<Longrightarrow> \<exists>v. fitness sc rs ps ind = Inr v"
  unfolding fitness_def by (rule fitness_loop_total)

lemma fitness_nonneg: "fitness sc rs ps ind = Inr v \<Longrightarrow> 0 \<le> v"
  unfolding fitness_def by (rule fitness_loop_mono)

text \<open>Evaluation on the example scenario.\<close>

lemma idx_ex: "idx ex_rs = [(''R1'', 0), (''R2'', 1)]"
  by (simp add: idx_def ex_rs_def upt_rec)

lemma len_ex: "length ex_rs = 2"
  by (simp add: ex_rs_def)





lemma pair_times_ex_blind:
  "pair_times sc ex_rs [1 / 2, 1 / 2, 2000, 2000] ex_pair = Inr (100, 100)"
  by (simp add: pair_times_def idx_ex dict_get_def py_get_def ex_pair_def relay_time_def
      MAX_TIME_def len_ex Let_def)

lemma fitness_ex_blind: "fitness sc ex_rs [ex_pair] [1 / 2, 1 / 2, 2000, 2000] = Inr (451 / 5)"
  by (simp add: fitness_def pair_times_ex_blind add_penalties_def CTI_def MAX_TIME_def)




lemma fitness_loop_time_penalty:
  "fitness_loop sc rs ind ps acc = Inr v \<Longrightarrow> p \<in> set ps \<Longrightarrow>
   pair_times sc rs ind p = Inr (tM, tB) \<Longrightarrow> MAX_TIME < tM \<Longrightarrow> acc + (tM - MAX_TIME) \<le> v"
proof (induction ps arbitrary: acc)
  case Nil
  then show ?case by simp
next
  case (Cons q ps)
  from Cons.prems(1) obtain tM' tB' where pt: "pair_times sc rs ind q = Inr (tM', tB')"
    and rest: "fitness_loop sc rs ind ps (add_penalties acc tM' tB') = Inr v"
    by (rule fitness_loop_Cons_Inr)
  show ?case
  proof (cases "p = q")
    case True
    with pt Cons.prems(3) have eq: "tM' = tM" "tB' = tB" by simp_all
    have "acc + (tM - MAX_TIME) \<le> add_penalties acc tM tB"
      using Cons.prems(4) by (simp add: add_penalties_def Let_def)
    moreover have "add_penalties acc tM tB \<le> v"
      using rest eq fitness_loop_mono by blast
    ultimately show ?thesis by linarith
  next
    case False
    with Cons.prems(2) have "p \<in> set ps" by simp
    from Cons.IH[OF rest this Cons.prems(3,4)]
    have "add_penalties acc tM' tB' + (tM - MAX_TIME) \<le> v" .
    moreover have "acc \<le> add_penalties acc tM' tB'" by (rule add_penalties_ge)
    ultimately show ?thesis by linarith
  qed
qed

lemma fitness_loop_pair_times:
  "fitness_loop sc rs ind ps acc = Inr v \<Longrightarrow> p \<in> set ps \<Longrightarrow>
   \<exists>tM tB. pair_times sc rs ind p = Inr (tM, tB)"
proof (induction ps arbitrary: acc)
  case Nil
  then show ?case by simp
next
  case (Cons q ps)
  from Cons.prems(1) obtain tM' tB' where pt: "pair_times sc rs ind q = Inr (tM', tB')"
    and rest: "fitness_loop sc rs ind ps (add_penalties acc tM' tB') = Inr v"
    by (rule fitness_loop_Cons_Inr)
  show ?case
  proof (cases "p = q")
    case True
    with pt show ?thesis by blast
  next
    case False
    with Cons.prems(2) have "p \<in> set ps" by simp
    from Cons.IH[OF rest this] show ?thesis .
  qed
qed

lemma pair_times_main_sentinel:
  assumes "pair_times sc rs ind p = Inr (tM, tB)"
    and "dict_get (idx rs) (main_relay p) = Inr mi"
    and "Ishc_main p \<le> drop (length rs) ind ! mi"
  shows "tM = MAX_TIME * 10"
proof -
  have "\<And>t. relay_time sc (Ishc_main p) (drop (length rs) ind ! mi) t = Inr (MAX_TIME * 10)"
    using assms(3) by (rule relay_time_sentinel)
  then show ?thesis using assms(1,2)
    by (auto simp: pair_times_def Let_def bindE_eq_Inr py_get_def split: if_splits)
qed

text \<open>
  C10: if the fault current of the main relay of some pair is at most the pickup gene of
  that relay, the fitness is at least \<open>MAX_TIME * 10 - MAX_TIME = 90\<close>.
\<close>

theorem fitness_blind_main_relay:
  assumes "fitness sc rs ps ind = Inr v"
    and "p \<in> set ps"
    and "dict_get (idx rs) (main_relay p) = Inr mi"
    and "Ishc_main p \<le> drop (length rs) ind ! mi"
  shows "MAX_TIME * 10 - MAX_TIME \<le> v \<and> MAX_TIME * 10 - MAX_TIME = 90"
proof -
  from assms(1) have loop: "fitness_loop sc rs ind ps 0 = Inr v" by (simp add: fitness_def)
  from fitness_loop_pair_times[OF loop assms(2)] obtain tM tB
    where pt: "pair_times sc rs ind p = Inr (tM, tB)" by blast
  have tM: "tM = MAX_TIME * 10" using pt assms(3,4) by (rule pair_times_main_sentinel)
  then have "MAX_TIME < tM" by (simp add: MAX_TIME_def)
  from fitness_loop_time_penalty[OF loop assms(2) pt this] tM
  show ?thesis by (simp add: MAX_TIME_def)
qed

theorem fitness_blind_main_relay_witness:
  "fitness AllScenarios ex_rs [ex_pair] [1 / 2, 1 / 2, 2000, 2000] = Inr (451 / 5) \<and>
   ex_pair \<in> set [ex_pair] \<and> dict_get (idx ex_rs) (main_relay ex_pair) = Inr 0 \<and>
   Ishc_main ex_pair \<le> drop (length ex_rs) [1 / 2, 1 / 2, 2000, 2000] ! 0 \<and>
   (90::real) \<le> 451 / 5"
proof -
  have f: "fitness AllScenarios ex_rs [ex_pair] [1 / 2, 1 / 2, 2000, 2000] = Inr (451 / 5)"
    by (rule fitness_ex_blind)
  have d: "dict_get (idx ex_rs) (main_relay ex_pair) = Inr 0"
    by (simp add: dict_get_def idx_ex ex_pair_def)
  have i: "Ishc_main ex_pair \<le> drop (length ex_rs) [1 / 2, 1 / 2, 2000, 2000] ! 0"
    by (simp add: ex_pair_def len_ex)
  have m: "ex_pair \<in> set [ex_pair]" by simp
  show ?thesis
    using fitness_blind_main_relay [OF f m d i] f d i by simp
qed

section \<open>The genetic algorithm\<close>

subsection \<open>The children\<close>

lemma mutate_length: "mutate xmin xmax ms child = Inr child' \<Longrightarrow> length child' = length child"
proof (induction ms arbitrary: child)
  case Nil
  then show ?case by simp
next
  case (Cons a ms)
  obtain m r where a: "a = (m, r)" by (cases a)
  from Cons.prems a have "mutate xmin xmax ms (child[m := xmin ! m + r * (xmax ! m - xmin ! m)]) = Inr child'"
    by (simp split: if_splits)
  from Cons.IH[OF this] show ?case by simp
qed

lemma crossover_length:
  "Nv \<le> length row1 \<Longrightarrow> Nv \<le> length row2 \<Longrightarrow>
   length (take c (take Nv row1) @ drop c (take Nv row2)) = Nv"
  by (cases "c \<le> Nv") simp_all

lemma candidates_length:
  assumes "candidates sc cfg rs ps xmin xmax Xs d = Inr ((H1, f1), (H2, f2))"
    and "list_all (\<lambda>r. length r = 2 * length rs + 1) Xs"
  shows "length H1 = 2 * length rs \<and> length H2 = 2 * length rs"
  using assms unfolding candidates_def Let_def
  by (auto simp: bindE_eq_Inr py_get_def list_all_length split: if_splits dest!: mutate_length)

lemma candidates_fitness:
  assumes "candidates sc cfg rs ps xmin xmax Xs d = Inr ((H1, f1), (H2, f2))"
  shows "fitness sc rs ps H1 = Inr f1 \<and> fitness sc rs ps H2 = Inr f2"
  using assms unfolding candidates_def Let_def
  by (auto simp: bindE_eq_Inr split: if_splits)

lemma best_child_cases:
  assumes "best_child sc cfg rs ps xmin xmax Xs d = Inr (child, fchild)"
  obtains H1 f1 H2 f2 where "candidates sc cfg rs ps xmin xmax Xs d = Inr ((H1, f1), (H2, f2))"
    and "(child, fchild) = (H1, f1) \<or> (child, fchild) = (H2, f2)"
    and "fchild \<le> f1" and "fchild \<le> f2"
proof -
  from assms obtain c1 c2 where c: "candidates sc cfg rs ps xmin xmax Xs d = Inr (c1, c2)"
    and sel: "(child, fchild) = (if snd c1 \<le> snd c2 then c1 else c2)"
    unfolding best_child_def by (auto simp: bindE_eq_Inr)
  obtain H1 f1 where c1: "c1 = (H1, f1)" by (cases c1)
  obtain H2 f2 where c2: "c2 = (H2, f2)" by (cases c2)
  show ?thesis
  proof (rule that[of H1 f1 H2 f2])
    show "candidates sc cfg rs ps xmin xmax Xs d = Inr ((H1, f1), (H2, f2))"
      using c c1 c2 by simp
    show "(child, fchild) = (H1, f1) \<or> (child, fchild) = (H2, f2)"
      using sel c1 c2 by (simp split: if_splits)
    show "fchild \<le> f1" using sel c1 c2 by (simp split: if_splits)
    show "fchild \<le> f2" using sel c1 c2 by (simp split: if_splits)
  qed
qed

lemma best_child_select:
  assumes "best_child sc cfg rs ps xmin xmax Xs d = Inr (child, fchild)"
  shows "\<exists>H1 f1 H2 f2. candidates sc cfg rs ps xmin xmax Xs d = Inr ((H1, f1), (H2, f2)) \<and>
           (child, fchild) = (if f1 \<le> f2 then (H1, f1) else (H2, f2))"
proof -
  from assms obtain c1 c2 where c: "candidates sc cfg rs ps xmin xmax Xs d = Inr (c1, c2)"
    and sel: "(child, fchild) = (if snd c1 \<le> snd c2 then c1 else c2)"
    unfolding best_child_def by (auto simp: bindE_eq_Inr)
  obtain H1 f1 where c1: "c1 = (H1, f1)" by (cases c1)
  obtain H2 f2 where c2: "c2 = (H2, f2)" by (cases c2)
  from c sel c1 c2 show ?thesis by simp
qed

lemma best_child_length:
  assumes "best_child sc cfg rs ps xmin xmax Xs d = Inr (child, fchild)"
    and "list_all (\<lambda>r. length r = 2 * length rs + 1) Xs"
  shows "length child = 2 * length rs"
proof -
  from assms(1) obtain H1 f1 H2 f2
    where c: "candidates sc cfg rs ps xmin xmax Xs d = Inr ((H1, f1), (H2, f2))"
      and sel: "(child, fchild) = (H1, f1) \<or> (child, fchild) = (H2, f2)"
    by (rule best_child_cases)
  from candidates_length[OF c assms(2)] sel show ?thesis by auto
qed

lemma best_child_fitness:
  assumes "best_child sc cfg rs ps xmin xmax Xs d = Inr (child, fchild)"
  shows "fitness sc rs ps child = Inr fchild"
proof -
  from assms(1) obtain H1 f1 H2 f2
    where c: "candidates sc cfg rs ps xmin xmax Xs d = Inr ((H1, f1), (H2, f2))"
      and sel: "(child, fchild) = (H1, f1) \<or> (child, fchild) = (H2, f2)"
    by (rule best_child_cases)
  from candidates_fitness[OF c] sel show ?thesis by auto
qed

subsection \<open>Sorting and replacement\<close>

lemma sort_pop_sorted: "sorted_pop Nv (sort_pop Nv Xs)"
  by (simp add: sorted_pop_def sort_pop_def)

lemma sort_pop_mset: "mset (sort_pop Nv Xs) = mset Xs"
  by (simp add: sort_pop_def)

lemma sort_pop_length: "length (sort_pop Nv Xs) = length Xs"
  by (simp add: sort_pop_def)

lemma sort_pop_set: "set (sort_pop Nv Xs) = set Xs"
  by (simp add: sort_pop_def)

lemma sort_pop_id: "sorted_pop Nv Xs \<Longrightarrow> sort_pop Nv Xs = Xs"
  by (simp add: sorted_pop_def sort_pop_def sort_key_id_if_sorted)

lemma update_last: "Xs \<noteq> [] \<Longrightarrow> Xs[length Xs - 1 := row] = butlast Xs @ [row]"
  by (induction Xs rule: rev_induct) simp_all

lemma update_best_X: "update_best Nv Xs st = Inr st' \<Longrightarrow> X st' = Xs"
  by (auto simp: update_best_def bindE_eq_Inr split: if_splits)

text \<open>What the step does to the population, in both scripts.\<close>

lemma generation_cases:
  assumes "generation sc cfg rs ps xmin xmax st d = Inr st'"
  shows "\<exists>child fchild.
    best_child sc cfg rs ps xmin xmax (X st) d = Inr (child, fchild) \<and> X st \<noteq> [] \<and>
    (if replaces cfg (2 * length rs) (X st) child fchild
     then update_best (2 * length rs)
           (sort_pop (2 * length rs) (butlast (X st) @ [child @ [fchild]])) st = Inr st'
     else if sc = Fast
     then update_best (2 * length rs) (sort_pop (2 * length rs) (X st)) st = Inr st'
     else st' = st)"
proof -
  let ?Nv = "2 * length rs"
  from assms obtain child fchild worst where
    bc: "best_child sc cfg rs ps xmin xmax (X st) d = Inr (child, fchild)"
    and w: "py_last (X st) = Inr worst"
    and rest: "(case sc of
              Fast \<Rightarrow> update_best ?Nv (sort_pop ?Nv (if replaces cfg ?Nv (X st) child fchild
                  then (X st)[length (X st) - 1 := child @ [fchild]] else X st)) st
            | AllScenarios \<Rightarrow>
                if replaces cfg ?Nv (X st) child fchild
                then update_best ?Nv (sort_pop ?Nv (if replaces cfg ?Nv (X st) child fchild
                  then (X st)[length (X st) - 1 := child @ [fchild]] else X st)) st
                else Inr st) = Inr st'"
    unfolding generation_def Let_def by (auto simp: bindE_eq_Inr)
  from w have ne: "X st \<noteq> []" by (auto simp: py_last_def split: if_splits)
  note ul = update_last[OF ne, of "child @ [fchild]"]
  have "(if replaces cfg ?Nv (X st) child fchild
     then update_best ?Nv (sort_pop ?Nv (butlast (X st) @ [child @ [fchild]])) st = Inr st'
     else if sc = Fast
     then update_best ?Nv (sort_pop ?Nv (X st)) st = Inr st'
     else st' = st)"
    using rest ul by (cases sc) (simp_all split: if_splits)
  with bc ne show ?thesis by blast
qed

lemma generation_X:
  assumes "generation sc cfg rs ps xmin xmax st d = Inr st'"
    and "sorted_pop (2 * length rs) (X st)"
  shows "\<exists>child fchild. best_child sc cfg rs ps xmin xmax (X st) d = Inr (child, fchild) \<and>
           X st \<noteq> [] \<and>
           X st' = (if replaces cfg (2 * length rs) (X st) child fchild
                    then sort_pop (2 * length rs) (butlast (X st) @ [child @ [fchild]])
                    else X st)"
proof -
  let ?Nv = "2 * length rs"
  from generation_cases[OF assms(1)] obtain child fchild where
    bc: "best_child sc cfg rs ps xmin xmax (X st) d = Inr (child, fchild)"
    and ne: "X st \<noteq> []"
    and c: "(if replaces cfg ?Nv (X st) child fchild
     then update_best ?Nv (sort_pop ?Nv (butlast (X st) @ [child @ [fchild]])) st = Inr st'
     else if sc = Fast
     then update_best ?Nv (sort_pop ?Nv (X st)) st = Inr st'
     else st' = st)"
    by blast
  have "X st' = (if replaces cfg ?Nv (X st) child fchild
                    then sort_pop ?Nv (butlast (X st) @ [child @ [fchild]])
                    else X st)"
  proof (cases "replaces cfg ?Nv (X st) child fchild")
    case True
    with c have "update_best ?Nv (sort_pop ?Nv (butlast (X st) @ [child @ [fchild]])) st = Inr st'"
      by simp
    from update_best_X[OF this] True show ?thesis by simp
  next
    case False
    show ?thesis
    proof (cases "sc = Fast")
      case True
      with c False have "update_best ?Nv (sort_pop ?Nv (X st)) st = Inr st'" by simp
      from update_best_X[OF this] False assms(2) show ?thesis
        by (simp add: sort_pop_id)
    next
      case nf: False
      with c False show ?thesis by simp
    qed
  qed
  with bc ne show ?thesis by blast
qed

subsection \<open>The best solution\<close>

lemma sorted_pop_last:
  assumes "sorted_pop Nv Xs" "r \<in> set Xs"
  shows "r ! Nv \<le> last Xs ! Nv"
proof -
  from assms(2) obtain i where i: "i < length Xs" "Xs ! i = r" by (auto simp: in_set_conv_nth)
  then have ne: "Xs \<noteq> []" by auto
  have "map (\<lambda>r. r ! Nv) Xs ! i \<le> map (\<lambda>r. r ! Nv) Xs ! (length Xs - 1)"
    using assms(1) i(1) unfolding sorted_pop_def
    by (intro sorted_nth_mono) simp_all
  then show ?thesis using i ne by (simp add: last_conv_nth)
qed

lemma update_best_le:
  "update_best Nv Xs st = Inr st' \<Longrightarrow>
   X_best st' ! Nv \<le> X_best st ! Nv \<and>
   (X_best st' = X_best st \<or> (X_best st' = Xs ! 0 \<and> Xs ! 0 ! Nv < X_best st ! Nv))"
  by (auto simp: update_best_def bindE_eq_Inr py_get_def split: if_splits)

lemma generation_best_le:
  assumes "generation sc cfg rs ps xmin xmax st d = Inr st'"
  shows "X_best st' ! (2 * length rs) \<le> X_best st ! (2 * length rs) \<and>
         (X_best st' = X_best st \<or>
          (X_best st' = X st' ! 0 \<and> X st' ! 0 ! (2 * length rs) < X_best st ! (2 * length rs)))"
proof -
  let ?Nv = "2 * length rs"
  from generation_cases[OF assms] obtain child fchild where
    c: "(if replaces cfg ?Nv (X st) child fchild
     then update_best ?Nv (sort_pop ?Nv (butlast (X st) @ [child @ [fchild]])) st = Inr st'
     else if sc = Fast
     then update_best ?Nv (sort_pop ?Nv (X st)) st = Inr st'
     else st' = st)"
    by blast
  have ub: "\<And>Xs. update_best ?Nv Xs st = Inr st' \<Longrightarrow> ?thesis"
    using update_best_le update_best_X by metis
  show ?thesis
  proof (cases "replaces cfg ?Nv (X st) child fchild")
    case True
    with c ub show ?thesis by simp
  next
    case False
    show ?thesis
    proof (cases "sc = Fast")
      case True
      with c False ub show ?thesis by simp
    next
      case nf: False
      with c False show ?thesis by simp
    qed
  qed
qed

lemma ga_loop_best_le:
  "ga_loop sc cfg rs ps xmin xmax rgen gen st = Inr (st', g) \<Longrightarrow>
   X_best st' ! (2 * length rs) \<le> X_best st ! (2 * length rs)"
proof (induction sc cfg rs ps xmin xmax rgen gen st rule: ga_loop.induct)
  case (1 sc cfg rs ps xmin xmax rgen gen st)
  note unf = ga_loop.simps[of sc cfg rs ps xmin xmax rgen gen st]
  show ?case
  proof (cases "GA_maxGen cfg < gen")
    case True
    with "1.prems" show ?thesis by (simp add: unf)
  next
    case False
    with "1.prems" obtain st1 where
      g: "generation sc cfg rs ps xmin xmax st (rgen gen) = Inr st1"
      by (cases "generation sc cfg rs ps xmin xmax st (rgen gen)") (simp_all add: unf)
    from generation_best_le[OF g]
    have le: "X_best st1 ! (2 * length rs) \<le> X_best st ! (2 * length rs)" by simp
    show ?thesis
    proof (cases "stops cfg (2 * length rs) st1")
      case True
      with "1.prems" False g have "st' = st1" by (simp add: unf)
      with le show ?thesis by simp
    next
      case stp: False
      with "1.prems" False g
      have "ga_loop sc cfg rs ps xmin xmax rgen (gen + 1) st1 = Inr (st', g)"
        by (simp add: unf)
      from "1.IH"[OF False g stp this] le show ?thesis by linarith
    qed
  qed
qed

subsection \<open>Near-duplicates\<close>

lemma near_sym: "near Nv a b = near Nv b a"
  by (simp add: near_def abs_minus_commute)

lemma near_append_left: "Nv \<le> length a \<Longrightarrow> near Nv (a @ e) b = near Nv a b"
  by (simp add: near_def list_all_iff nth_append)

lemma no_near_dups_snoc:
  "no_near_dups Nv (rows @ [r]) \<longleftrightarrow> no_near_dups Nv rows \<and> list_all (\<lambda>q. \<not> near Nv q r) rows"
  by (induction rows) auto

lemma no_near_dups_butlast: "no_near_dups Nv rows \<Longrightarrow> no_near_dups Nv (butlast rows)"
proof (cases rows rule: rev_cases)
  case Nil
  then show ?thesis by simp
next
  case (snoc ys y)
  assume "no_near_dups Nv rows"
  with snoc show ?thesis by (simp add: no_near_dups_snoc)
qed

lemma no_near_dups_insort:
  "no_near_dups Nv (insort_key f r rows) = no_near_dups Nv (r # rows)"
proof (induction rows)
  case Nil
  then show ?case by simp
next
  case (Cons q rows)
  show ?case
  proof (cases "f r \<le> f q")
    case True
    then show ?thesis by simp
  next
    case False
    then have "no_near_dups Nv (insort_key f r (q # rows)) =
        (list_all (\<lambda>x. \<not> near Nv q x) (insort_key f r rows) \<and> no_near_dups Nv (r # rows))"
      using Cons.IH by simp
    also have "list_all (\<lambda>x. \<not> near Nv q x) (insort_key f r rows) =
        (\<not> near Nv q r \<and> list_all (\<lambda>x. \<not> near Nv q x) rows)"
      by (simp add: list_all_iff set_insort_key)
    finally show ?thesis using near_sym[of Nv q r] by auto
  qed
qed

lemma no_near_dups_sort_key: "no_near_dups Nv (sort_key f rows) = no_near_dups Nv rows"
proof (induction rows)
  case Nil
  then show ?case by simp
next
  case (Cons r rows)
  have "no_near_dups Nv (sort_key f (r # rows)) = no_near_dups Nv (r # sort_key f rows)"
    by (simp add: no_near_dups_insort)
  also have "\<dots> = no_near_dups Nv (r # rows)"
    using Cons.IH by (simp add: list_all_iff)
  finally show ?case .
qed

lemma no_near_dups_sort_pop: "no_near_dups Nv (sort_pop Nv' rows) = no_near_dups Nv rows"
  by (simp add: sort_pop_def no_near_dups_sort_key)

lemma duplicate_iff:
  "length Xs = GA_Ni cfg \<Longrightarrow> duplicate cfg Nv child Xs \<longleftrightarrow> (\<exists>q\<in>set Xs. near Nv child q)"
proof -
  assume len: "length Xs = GA_Ni cfg"
  have "duplicate cfg Nv child Xs \<longleftrightarrow> (\<exists>k<length Xs. near Nv child (Xs ! k))"
    using len by (auto simp: duplicate_def list_ex_iff)
  also have "\<dots> \<longleftrightarrow> (\<exists>q\<in>set Xs. near Nv child q)"
    by (metis in_set_conv_nth)
  finally show ?thesis .
qed

lemma near_iff: "near Nv child q \<longleftrightarrow> (\<forall>j<Nv. \<bar>child ! j - q ! j\<bar> < 1 / 10 ^ 12)"
  by (auto simp: near_def list_all_iff)

lemma duplicate_explicit:
  "length Xs = GA_Ni cfg \<Longrightarrow>
   duplicate cfg Nv child Xs \<longleftrightarrow> (\<exists>q\<in>set Xs. \<forall>j<Nv. \<bar>child ! j - q ! j\<bar> < 1 / 10 ^ 12)"
  by (simp add: duplicate_iff near_iff)

subsection \<open>The shape of the population\<close>

lemma pop_shape_rows: "pop_shape cfg Nv Xs \<Longrightarrow> list_all (\<lambda>r. length r = Nv + 1) Xs"
  by (simp add: pop_shape_def)

lemma pop_shape_replace:
  assumes "pop_shape cfg Nv Xs" "Xs \<noteq> []" "length child = Nv"
  shows "pop_shape cfg Nv (sort_pop Nv (butlast Xs @ [child @ [f]]))"
proof -
  from assms(2) obtain ys y where xs: "Xs = ys @ [y]" by (cases Xs rule: rev_cases) auto
  with assms(1,3) show ?thesis
    by (simp add: pop_shape_def sort_pop_length list_all_iff sort_pop_set)
qed

lemma pop_shape_sort: "pop_shape cfg Nv Xs \<Longrightarrow> pop_shape cfg Nv (sort_pop Nv Xs)"
  by (simp add: pop_shape_def sort_pop_length list_all_iff sort_pop_set)

text \<open>The population after one generation, whether or not the population was sorted.\<close>

lemma generation_X_any:
  assumes "generation sc cfg rs ps xmin xmax st d = Inr st'"
  shows "\<exists>child fchild. best_child sc cfg rs ps xmin xmax (X st) d = Inr (child, fchild) \<and>
           X st \<noteq> [] \<and>
           (if replaces cfg (2 * length rs) (X st) child fchild
            then X st' = sort_pop (2 * length rs) (butlast (X st) @ [child @ [fchild]])
            else X st' = sort_pop (2 * length rs) (X st) \<or> X st' = X st)"
proof -
  let ?Nv = "2 * length rs"
  from generation_cases[OF assms(1)] obtain child fchild where
    bc: "best_child sc cfg rs ps xmin xmax (X st) d = Inr (child, fchild)"
    and ne: "X st \<noteq> []"
    and c: "(if replaces cfg ?Nv (X st) child fchild
     then update_best ?Nv (sort_pop ?Nv (butlast (X st) @ [child @ [fchild]])) st = Inr st'
     else if sc = Fast
     then update_best ?Nv (sort_pop ?Nv (X st)) st = Inr st'
     else st' = st)"
    by blast
  have "(if replaces cfg ?Nv (X st) child fchild
            then X st' = sort_pop ?Nv (butlast (X st) @ [child @ [fchild]])
            else X st' = sort_pop ?Nv (X st) \<or> X st' = X st)"
    using c update_best_X by (auto split: if_splits)
  with bc ne show ?thesis by blast
qed

lemma generation_shape:
  assumes "generation sc cfg rs ps xmin xmax st d = Inr st'"
    and "pop_shape cfg (2 * length rs) (X st)"
  shows "pop_shape cfg (2 * length rs) (X st')"
proof -
  let ?Nv = "2 * length rs"
  from generation_X_any[OF assms(1)] obtain child fchild where
    bc: "best_child sc cfg rs ps xmin xmax (X st) d = Inr (child, fchild)"
    and ne: "X st \<noteq> []"
    and x: "(if replaces cfg ?Nv (X st) child fchild
            then X st' = sort_pop ?Nv (butlast (X st) @ [child @ [fchild]])
            else X st' = sort_pop ?Nv (X st) \<or> X st' = X st)"
    by blast
  have len: "length child = ?Nv"
    using best_child_length[OF bc] pop_shape_rows[OF assms(2)] by simp
  show ?thesis
    using x pop_shape_replace[OF assms(2) ne len, of fchild] pop_shape_sort[OF assms(2)] assms(2)
    by (auto split: if_splits)
qed

lemma generation_no_near_dups:
  assumes "generation sc cfg rs ps xmin xmax st d = Inr st'"
    and "pop_shape cfg (2 * length rs) (X st)"
    and "no_near_dups (2 * length rs) (X st)"
  shows "no_near_dups (2 * length rs) (X st')"
proof -
  let ?Nv = "2 * length rs"
  from generation_X_any[OF assms(1)] obtain child fchild where
    bc: "best_child sc cfg rs ps xmin xmax (X st) d = Inr (child, fchild)"
    and ne: "X st \<noteq> []"
    and x: "(if replaces cfg ?Nv (X st) child fchild
            then X st' = sort_pop ?Nv (butlast (X st) @ [child @ [fchild]])
            else X st' = sort_pop ?Nv (X st) \<or> X st' = X st)"
    by blast
  have len: "length child = ?Nv"
    using best_child_length[OF bc] pop_shape_rows[OF assms(2)] by simp
  show ?thesis
  proof (cases "replaces cfg ?Nv (X st) child fchild")
    case True
    then have nd: "\<not> duplicate cfg ?Nv child (X st)" by (simp add: replaces_def)
    have "length (X st) = GA_Ni cfg" using assms(2) by (simp add: pop_shape_def)
    from nd duplicate_iff[OF this] have far: "\<forall>q\<in>set (X st). \<not> near ?Nv child q" by blast
    have "\<forall>q\<in>set (butlast (X st)). \<not> near ?Nv q (child @ [fchild])"
    proof
      fix q assume "q \<in> set (butlast (X st))"
      then have "q \<in> set (X st)" by (rule in_set_butlastD)
      with far have "\<not> near ?Nv child q" by blast
      then have "\<not> near ?Nv (child @ [fchild]) q" using len by (simp add: near_append_left)
      then show "\<not> near ?Nv q (child @ [fchild])" using near_sym by blast
    qed
    then have "no_near_dups ?Nv (butlast (X st) @ [child @ [fchild]])"
      using no_near_dups_butlast[OF assms(3)] by (simp add: no_near_dups_snoc list_all_iff)
    with x True show ?thesis by (simp add: no_near_dups_sort_pop)
  next
    case False
    with x assms(3) show ?thesis by (auto simp: no_near_dups_sort_pop)
  qed
qed

subsection \<open>The loop\<close>

text \<open>An invariant of the step holds at the end of the loop.\<close>

lemma ga_loop_invariant:
  assumes "ga_loop sc cfg rs ps xmin xmax rgen gen st = Inr (st', g)"
    and "P st"
    and "\<And>s n s'. P s \<Longrightarrow> generation sc cfg rs ps xmin xmax s (rgen n) = Inr s' \<Longrightarrow> P s'"
  shows "P st'"
  using assms
proof (induction sc cfg rs ps xmin xmax rgen gen st rule: ga_loop.induct)
  case (1 sc cfg rs ps xmin xmax rgen gen st)
  note unf = ga_loop.simps[of sc cfg rs ps xmin xmax rgen gen st]
  show ?case
  proof (cases "GA_maxGen cfg < gen")
    case True
    with "1.prems"(1,2) show ?thesis by (simp add: unf)
  next
    case False
    with "1.prems"(1) obtain st1 where
      g: "generation sc cfg rs ps xmin xmax st (rgen gen) = Inr st1"
      by (cases "generation sc cfg rs ps xmin xmax st (rgen gen)") (simp_all add: unf)
    have p1: "P st1" using "1.prems"(3)[OF "1.prems"(2) g] .
    show ?thesis
    proof (cases "stops cfg (2 * length rs) st1")
      case True
      with "1.prems"(1) False g have "st' = st1" by (simp add: unf)
      with p1 show ?thesis by simp
    next
      case stp: False
      with "1.prems"(1) False g
      have "ga_loop sc cfg rs ps xmin xmax rgen (gen + 1) st1 = Inr (st', g)"
        by (simp add: unf)
      from "1.IH"[OF False g stp this p1 "1.prems"(3)] show ?thesis .
    qed
  qed
qed

subsection \<open>The initial state\<close>

lemma new_individual_length: "length (new_individual xmin xmax Nv r) = Nv"
  by (simp add: new_individual_def)

lemma init_loop_rows:
  "init_loop sc rs ps xmin xmax rinit ks = Inr rows \<Longrightarrow>
   list_all2 (\<lambda>k row. \<exists>f. row = new_individual xmin xmax (2 * length rs) (rinit k) @ [f]) ks rows"
proof (induction ks arbitrary: rows)
  case Nil
  then show ?case by simp
next
  case (Cons k ks)
  from Cons.prems obtain f rows' where
    f: "fitness sc rs ps (new_individual xmin xmax (2 * length rs) (rinit k)) = Inr f"
    and r: "init_loop sc rs ps xmin xmax rinit ks = Inr rows'"
    and rows: "rows = (new_individual xmin xmax (2 * length rs) (rinit k) @ [f]) # rows'"
    by (auto simp: Let_def bindE_eq_Inr)
  from Cons.IH[OF r] rows show ?case by auto
qed

lemma initial_state_X:
  assumes "initial_state sc cfg rs ps xmin xmax rinit = Inr st"
  obtains rows where "init_loop sc rs ps xmin xmax rinit [0..<GA_Ni cfg] = Inr rows"
    and "X st = sort_pop (2 * length rs) rows" and "X_best st = X st ! 0" and "stall st = 0"
  using assms unfolding initial_state_def Let_def
  by (auto simp: bindE_eq_Inr py_get_def split: if_splits)

lemma initial_state_shape:
  assumes "initial_state sc cfg rs ps xmin xmax rinit = Inr st"
  shows "pop_shape cfg (2 * length rs) (X st) \<and> sorted_pop (2 * length rs) (X st)"
proof -
  from assms obtain rows where
    r: "init_loop sc rs ps xmin xmax rinit [0..<GA_Ni cfg] = Inr rows"
    and x: "X st = sort_pop (2 * length rs) rows"
    by (rule initial_state_X)
  from init_loop_rows[OF r] have
    l2: "list_all2 (\<lambda>k row. \<exists>f. row = new_individual xmin xmax (2 * length rs) (rinit k) @ [f])
          [0..<GA_Ni cfg] rows" .
  then have len: "length rows = GA_Ni cfg" by (auto dest: list_all2_lengthD)
  have "\<forall>row\<in>set rows. length row = 2 * length rs + 1"
  proof
    fix row assume "row \<in> set rows"
    then obtain i where "i < length rows" "rows ! i = row" by (auto simp: in_set_conv_nth)
    with l2 obtain f where "row = new_individual xmin xmax (2 * length rs) (rinit ([0..<GA_Ni cfg] ! i)) @ [f]"
      by (auto simp: list_all2_conv_all_nth)
    then show "length row = 2 * length rs + 1" by (simp add: new_individual_length)
  qed
  then show ?thesis using x len
    by (simp add: pop_shape_def sort_pop_length sort_pop_set list_all_iff sort_pop_sorted)
qed

lemma ga_run_cases:
  assumes "ga_run sc cfg rs ps rinit rgen = Inr (st', g)"
  obtains xmin xmax st0 where "bounds rs ps = Inr (xmin, xmax)"
    and "initial_state sc cfg rs ps xmin xmax rinit = Inr st0"
    and "ga_loop sc cfg rs ps xmin xmax rgen 1 st0 = Inr (st', g)"
  using assms unfolding ga_run_def
  by (auto simp: bindE_eq_Inr split: if_splits)

subsection \<open>Genes within their bounds\<close>














lemma ga_reach_shape:
  "ga_reach sc cfg rs ps xmin xmax st \<Longrightarrow> pop_shape cfg (2 * length rs) (X st)"
proof (induction rule: ga_reach.induct)
  case (reach_init rinit st)
  then show ?case using initial_state_shape by blast
next
  case (reach_step st d st')
  then show ?case using generation_shape by blast
qed

text \<open>Every population of a run is sorted and has \<^verbatim>\<open>GA_Ni\<close> rows.\<close>

lemma ga_reach_sorted:
  "ga_reach sc cfg rs ps xmin xmax st \<Longrightarrow>
   sorted_pop (2 * length rs) (X st) \<and> length (X st) = GA_Ni cfg"
proof (induction rule: ga_reach.induct)
  case (reach_init rinit st)
  then show ?case using initial_state_shape by (auto simp: pop_shape_def)
next
  case (reach_step st d st')
  let ?Nv = "2 * length rs"
  from generation_X_any[OF reach_step.hyps(3)] obtain child fchild where
    x: "(if replaces cfg ?Nv (X st) child fchild
            then X st' = sort_pop ?Nv (butlast (X st) @ [child @ [fchild]])
            else X st' = sort_pop ?Nv (X st) \<or> X st' = X st)"
    by blast
  have "sorted_pop ?Nv (X st')"
    using x reach_step.IH sort_pop_sorted[of ?Nv] by (auto split: if_splits)
  moreover have "pop_shape cfg ?Nv (X st')"
    using generation_shape[OF reach_step.hyps(3) ga_reach_shape[OF reach_step.hyps(1)]] .
  ultimately show ?case by (simp add: pop_shape_def)
qed


lemma IscMin_loop_length:
  "IscMin_loop rs ps acc = Inr res \<Longrightarrow> length res = length acc"
proof (induction ps arbitrary: acc)
  case Nil
  then show ?case by simp
next
  case (Cons p ps)
  from Cons.prems obtain mi bi where
    "IscMin_loop rs ps ((acc[mi := min_inf (acc ! mi) (Ishc_main p)])
        [bi := min_inf ((acc[mi := min_inf (acc ! mi) (Ishc_main p)]) ! bi) (Ishc_backup p)]) = Inr res"
    by (auto simp: bindE_eq_Inr Let_def)
  from Cons.IH[OF this] show ?case by simp
qed


lemma ga_loop_reach:
  assumes "ga_loop sc cfg rs ps xmin xmax rgen gen st = Inr (st', g)"
    and "ga_reach sc cfg rs ps xmin xmax st"
    and "\<forall>n. valid_draw cfg (2 * length rs) (rgen n)"
  shows "ga_reach sc cfg rs ps xmin xmax st'"
proof (rule ga_loop_invariant[OF assms(1), where P = "ga_reach sc cfg rs ps xmin xmax"])
  show "ga_reach sc cfg rs ps xmin xmax st" by (rule assms(2))
next
  fix s n s'
  assume "ga_reach sc cfg rs ps xmin xmax s"
    and "generation sc cfg rs ps xmin xmax s (rgen n) = Inr s'"
  then show "ga_reach sc cfg rs ps xmin xmax s'"
    using assms(3) reach_step by blast
qed

text \<open>The final state of a run is one of the states the invariants speak of.\<close>

lemma ga_run_reach:
  assumes "ga_run sc cfg rs ps rinit rgen = Inr (st', g)"
    and "valid_rinit rinit"
    and "\<forall>n. valid_draw cfg (2 * length rs) (rgen n)"
  shows "\<exists>xmin xmax. bounds rs ps = Inr (xmin, xmax) \<and> ga_reach sc cfg rs ps xmin xmax st'"
proof -
  from assms(1) obtain xmin xmax st0 where
    b: "bounds rs ps = Inr (xmin, xmax)"
    and i: "initial_state sc cfg rs ps xmin xmax rinit = Inr st0"
    and l: "ga_loop sc cfg rs ps xmin xmax rgen 1 st0 = Inr (st', g)"
    by (rule ga_run_cases)
  have "ga_reach sc cfg rs ps xmin xmax st0" using assms(2) i by (rule reach_init)
  from ga_loop_reach[OF l this assms(3)] b show ?thesis by blast
qed

subsection \<open>A run returns\<close>

lemma gene_pos:
  fixes lo hi r :: real
  assumes "0 < lo" "0 < hi" "0 \<le> r" "r < 1"
  shows "0 < lo + r * (hi - lo)"
proof -
  have "lo + r * (hi - lo) = (1 - r) * lo + r * hi" by (simp add: algebra_simps)
  moreover have "0 < (1 - r) * lo" using assms(1,4) by simp
  moreover have "0 \<le> r * hi" using assms(2,3) by simp
  ultimately show ?thesis by linarith
qed

lemma pos_row_nth: "pos_row Nv row \<longleftrightarrow> (\<forall>j<Nv. 0 < row ! j)"
  by (auto simp: pos_row_def list_all_iff)

lemma bounds_pos_nth: "bounds_pos xmin xmax Nv \<Longrightarrow> j < Nv \<Longrightarrow> 0 < xmin ! j \<and> 0 < xmax ! j"
  by (auto simp: bounds_pos_def list_all_iff)

lemma new_individual_pos:
  assumes "bounds_pos xmin xmax Nv" "\<forall>j. 0 \<le> r j \<and> r j < 1"
  shows "pos_row Nv (new_individual xmin xmax Nv r)"
  unfolding pos_row_nth
proof (intro allI impI)
  fix j assume j: "j < Nv"
  from bounds_pos_nth[OF assms(1) j] assms(2)
  have "0 < xmin ! j + r j * (xmax ! j - xmin ! j)" by (intro gene_pos) simp_all
  with j show "0 < new_individual xmin xmax Nv r ! j" by (simp add: new_individual_def)
qed

lemma pos_row_append: "Nv \<le> length a \<Longrightarrow> pos_row Nv (a @ e) = pos_row Nv a"
  by (simp add: pos_row_nth nth_append)

lemma pos_row_take: "pos_row Nv (take Nv row) = pos_row Nv row"
  by (simp add: pos_row_nth)

lemma crossover_pos:
  assumes "pos_row Nv a" "pos_row Nv b" "length a = Nv" "length b = Nv"
  shows "pos_row Nv (take c a @ drop c b)"
  unfolding pos_row_nth
proof (intro allI impI)
  fix j assume j: "j < Nv"
  show "0 < (take c a @ drop c b) ! j"
  proof (cases "j < c")
    case True
    then have "(take c a @ drop c b) ! j = a ! j"
      using j assms(3) by (simp add: nth_append)
    with assms(1) j show ?thesis by (simp add: pos_row_nth)
  next
    case False
    then have c: "c \<le> j" by simp
    then have "c \<le> Nv" using j by simp
    then have "length (take c a) = c" using assms(3) by simp
    then have "(take c a @ drop c b) ! j = drop c b ! (j - c)"
      using False by (simp add: nth_append)
    also have "\<dots> = b ! j" using c j assms(4) by simp
    finally show ?thesis using assms(2) j by (simp add: pos_row_nth)
  qed
qed

lemma mutate_total_pos:
  assumes "bounds_pos xmin xmax Nv"
  shows "length child = Nv \<Longrightarrow> pos_row Nv child \<Longrightarrow>
         list_all (\<lambda>(m, r). m < Nv \<and> 0 \<le> r \<and> r < 1) ms \<Longrightarrow>
         \<exists>child'. mutate xmin xmax ms child = Inr child' \<and> pos_row Nv child'"
proof (induction ms arbitrary: child)
  case Nil
  then show ?case by simp
next
  case (Cons a ms)
  obtain m r where a: "a = (m, r)" by (cases a)
  let ?c = "child[m := xmin ! m + r * (xmax ! m - xmin ! m)]"
  from Cons.prems(3) a have mr: "m < Nv" "0 \<le> r" "r < 1"
    and ms: "list_all (\<lambda>(m, r). m < Nv \<and> 0 \<le> r \<and> r < 1) ms" by simp_all
  have lens: "length xmin = Nv" "length xmax = Nv" using assms by (simp_all add: bounds_pos_def)
  have g: "0 < xmin ! m + r * (xmax ! m - xmin ! m)"
    using bounds_pos_nth[OF assms mr(1)] mr(2,3) by (intro gene_pos) simp_all
  have "pos_row Nv ?c"
    unfolding pos_row_nth
  proof (intro allI impI)
    fix j assume j: "j < Nv"
    show "0 < ?c ! j"
    proof (cases "j = m")
      case True
      with mr(1) Cons.prems(1) g show ?thesis by simp
    next
      case False
      with Cons.prems(2) j show ?thesis by (simp add: pos_row_nth)
    qed
  qed
  moreover have "length ?c = Nv" using Cons.prems(1) by simp
  ultimately obtain child' where "mutate xmin xmax ms ?c = Inr child'" "pos_row Nv child'"
    using Cons.IH[OF _ _ ms] by blast
  then show ?case using a mr(1) Cons.prems(1) lens by simp
qed

lemma pos_row_pickups:
  assumes "pos_row (2 * length rs) child" "length child = 2 * length rs"
  shows "pickups_pos rs child"
proof -
  have "\<forall>x\<in>set (drop (length rs) child). 0 < x"
  proof
    fix x assume "x \<in> set (drop (length rs) child)"
    then obtain i where i: "i < length (drop (length rs) child)" "drop (length rs) child ! i = x"
      by (auto simp: in_set_conv_nth)
    then have "length rs + i < 2 * length rs" using assms(2) by simp
    with assms(1) have "0 < child ! (length rs + i)" by (simp add: pos_row_nth)
    with i assms(2) show "0 < x" by simp
  qed
  with assms(2) show ?thesis by (simp add: pickups_pos_def list_all_iff)
qed

lemma valid_mut_le:
  assumes "valid_mut n Nv ms"
  shows "n \<le> Nv"
proof -
  from assms have len: "length ms = n" and d: "distinct (map fst ms)"
    and lt: "\<forall>x\<in>set ms. fst x < Nv"
    by (auto simp: valid_mut_def list_all_iff)
  have "set (map fst ms) \<subseteq> {..<Nv}" using lt by auto
  then have "card (set (map fst ms)) \<le> card {..<Nv}" by (intro card_mono) simp_all
  moreover have "card (set (map fst ms)) = length (map fst ms)" using d by (rule distinct_card)
  ultimately show ?thesis using len by simp
qed

lemma candidates_total:
  assumes wf: "wf_pairs rs ps"
    and bp: "bounds_pos xmin xmax (2 * length rs)"
    and shape: "pop_shape cfg (2 * length rs) Xs"
    and pp: "pop_pos (2 * length rs) Xs"
    and vd: "valid_draw cfg (2 * length rs) d"
  shows "\<exists>H1 f1 H2 f2. candidates sc cfg rs ps xmin xmax Xs d = Inr ((H1, f1), (H2, f2)) \<and>
           pos_row (2 * length rs) H1 \<and> pos_row (2 * length rs) H2"
proof -
  let ?Nv = "2 * length rs"
  have len: "length Xs = GA_Ni cfg" using shape by (simp add: pop_shape_def)
  have i1: "s1 d < length Xs" and i2: "s2 d < length Xs" and ne: "s1 d \<noteq> s2 d"
    using vd len by (simp_all add: valid_draw_def)
  then have ni: "\<not> GA_Ni cfg < 2" using len by linarith
  have nm: "\<not> ?Nv < GA_nMut cfg"
    using valid_mut_le[of "GA_nMut cfg" ?Nv "mut1 d"] vd by (simp add: valid_draw_def)
  let ?r1 = "Xs ! s1 d" and ?r2 = "Xs ! s2 d"
  have l1: "length ?r1 = ?Nv + 1" and l2: "length ?r2 = ?Nv + 1"
    using i1 i2 pop_shape_rows[OF shape] by (auto simp: list_all_length)
  have p1: "pos_row ?Nv (take ?Nv ?r1)" and p2: "pos_row ?Nv (take ?Nv ?r2)"
    using pp i1 i2 by (simp_all add: pop_pos_def list_all_length pos_row_take)
  have t1: "length (take ?Nv ?r1) = ?Nv" and t2: "length (take ?Nv ?r2) = ?Nv"
    using l1 l2 by simp_all
  let ?H1 = "take (cp d) (take ?Nv ?r1) @ drop (cp d) (take ?Nv ?r2)"
  let ?H2 = "take (cp d) (take ?Nv ?r2) @ drop (cp d) (take ?Nv ?r1)"
  have h1: "length ?H1 = ?Nv" and h2: "length ?H2 = ?Nv"
    using crossover_length[of ?Nv ?r1 ?r2 "cp d"] crossover_length[of ?Nv ?r2 ?r1 "cp d"] l1 l2
    by simp_all
  have v1: "list_all (\<lambda>(m, r). m < ?Nv \<and> 0 \<le> r \<and> r < 1) (mut1 d)"
    and v2: "list_all (\<lambda>(m, r). m < ?Nv \<and> 0 \<le> r \<and> r < 1) (mut2 d)"
    using vd by (simp_all add: valid_draw_def valid_mut_def)
  obtain H1 where m1: "mutate xmin xmax (mut1 d) ?H1 = Inr H1" and q1: "pos_row ?Nv H1"
    using mutate_total_pos[OF bp h1 crossover_pos[OF p1 p2 t1 t2] v1] by blast
  obtain H2 where m2: "mutate xmin xmax (mut2 d) ?H2 = Inr H2" and q2: "pos_row ?Nv H2"
    using mutate_total_pos[OF bp h2 crossover_pos[OF p2 p1 t2 t1] v2] by blast
  have k1: "length H1 = ?Nv" using mutate_length[OF m1] h1 by (simp only:)
  have k2: "length H2 = ?Nv" using mutate_length[OF m2] h2 by (simp only:)
  obtain f1 where f1: "fitness sc rs ps H1 = Inr f1"
    using fitness_total[OF wf pos_row_pickups[OF q1 k1]] by blast
  obtain f2 where f2: "fitness sc rs ps H2 = Inr f2"
    using fitness_total[OF wf pos_row_pickups[OF q2 k2]] by blast
  have "candidates sc cfg rs ps xmin xmax Xs d = Inr ((H1, f1), (H2, f2))"
    unfolding candidates_def Let_def
    using ni nm i1 i2 m1 m2 f1 f2 by (simp add: py_get_def del: take_take)
  with q1 q2 show ?thesis by blast
qed

lemma update_best_total: "Xs \<noteq> [] \<Longrightarrow> \<exists>st'. update_best Nv Xs st = Inr st'"
  by (simp add: update_best_def py_get_def)

lemma sort_pop_nonempty: "Xs \<noteq> [] \<Longrightarrow> sort_pop Nv Xs \<noteq> []"
  using sort_pop_length[of Nv Xs] by (metis length_0_conv)

lemma pop_pos_sort: "pop_pos Nv (sort_pop Nv' Xs) = pop_pos Nv Xs"
  by (simp add: pop_pos_def list_all_iff sort_pop_set)

lemma generation_total:
  assumes wf: "wf_pairs rs ps"
    and bp: "bounds_pos xmin xmax (2 * length rs)"
    and shape: "pop_shape cfg (2 * length rs) (X st)"
    and pp: "pop_pos (2 * length rs) (X st)"
    and vd: "valid_draw cfg (2 * length rs) d"
  shows "\<exists>st'. generation sc cfg rs ps xmin xmax st d = Inr st' \<and> pop_pos (2 * length rs) (X st')"
proof -
  let ?Nv = "2 * length rs"
  from candidates_total[OF wf bp shape pp vd] obtain H1 f1 H2 f2 where
    c: "candidates sc cfg rs ps xmin xmax (X st) d = Inr ((H1, f1), (H2, f2))"
    and q: "pos_row ?Nv H1" "pos_row ?Nv H2" by blast
  obtain child fchild where cf: "(child, fchild) = (if f1 \<le> f2 then (H1, f1) else (H2, f2))"
    by (cases "f1 \<le> f2") auto
  have bc: "best_child sc cfg rs ps xmin xmax (X st) d = Inr (child, fchild)"
    using cf by (simp add: best_child_def c split: if_splits)
  have cpos: "pos_row ?Nv child" using q cf by (auto split: if_splits)
  have clen: "length child = ?Nv"
    using best_child_length[OF bc pop_shape_rows[OF shape]] .
  have "s1 d < GA_Ni cfg" using vd by (simp add: valid_draw_def)
  then have ne: "X st \<noteq> []" using shape by (auto simp: pop_shape_def)
  then have pl: "py_last (X st) = Inr (last (X st))" by (simp add: py_last_def)
  let ?Xr = "(X st)[length (X st) - 1 := child @ [fchild]]"
  have ner: "?Xr \<noteq> []" using ne by simp
  obtain sa where sa: "update_best ?Nv (sort_pop ?Nv ?Xr) st = Inr sa"
    using update_best_total[OF sort_pop_nonempty[OF ner]] by blast
  obtain sb where sb: "update_best ?Nv (sort_pop ?Nv (X st)) st = Inr sb"
    using update_best_total[OF sort_pop_nonempty[OF ne]] by blast
  have "\<exists>st'. generation sc cfg rs ps xmin xmax st d = Inr st'"
    unfolding generation_def Let_def using sa sb bc pl
    by (cases sc) (simp_all split: if_splits)
  then obtain st' where g: "generation sc cfg rs ps xmin xmax st d = Inr st'" by blast
  from generation_X_any[OF g] bc have
    x: "(if replaces cfg ?Nv (X st) child fchild
            then X st' = sort_pop ?Nv (butlast (X st) @ [child @ [fchild]])
            else X st' = sort_pop ?Nv (X st) \<or> X st' = X st)"
    by auto
  have "pop_pos ?Nv (butlast (X st))"
    using pp by (auto simp: pop_pos_def list_all_iff dest: in_set_butlastD)
  then have "pop_pos ?Nv (butlast (X st) @ [child @ [fchild]])"
    using cpos clen by (simp add: pop_pos_def pos_row_append)
  with x pp have "pop_pos ?Nv (X st')" by (auto simp: pop_pos_sort split: if_splits)
  with g show ?thesis by blast
qed

lemma ga_loop_total:
  assumes "wf_pairs rs ps" "bounds_pos xmin xmax (2 * length rs)"
    and "\<forall>n. valid_draw cfg (2 * length rs) (rgen n)"
    and "pop_shape cfg (2 * length rs) (X st)" "pop_pos (2 * length rs) (X st)"
  shows "\<exists>st' g. ga_loop sc cfg rs ps xmin xmax rgen gen st = Inr (st', g)"
  using assms
proof (induction sc cfg rs ps xmin xmax rgen gen st rule: ga_loop.induct)
  case (1 sc cfg rs ps xmin xmax rgen gen st)
  note unf = ga_loop.simps[of sc cfg rs ps xmin xmax rgen gen st]
  show ?case
  proof (cases "GA_maxGen cfg < gen")
    case True
    then show ?thesis by (simp add: unf)
  next
    case False
    have vd: "valid_draw cfg (2 * length rs) (rgen gen)" using "1.prems"(3) by simp
    from generation_total[OF "1.prems"(1,2,4,5) vd] obtain st1 where
      g: "generation sc cfg rs ps xmin xmax st (rgen gen) = Inr st1"
      and p1: "pop_pos (2 * length rs) (X st1)" by blast
    have s1: "pop_shape cfg (2 * length rs) (X st1)"
      using generation_shape[OF g "1.prems"(4)] .
    show ?thesis
    proof (cases "stops cfg (2 * length rs) st1")
      case True
      with False g show ?thesis by (simp add: unf)
    next
      case stp: False
      from "1.IH"[OF False g stp "1.prems"(1,2,3) s1 p1] stp False g
      show ?thesis by (simp add: unf)
    qed
  qed
qed

lemma init_loop_total:
  assumes "wf_pairs rs ps" "bounds_pos xmin xmax (2 * length rs)" "valid_rinit rinit"
  shows "\<exists>rows. init_loop sc rs ps xmin xmax rinit ks = Inr rows \<and>
           list_all (pos_row (2 * length rs)) rows"
proof (induction ks)
  case Nil
  then show ?case by simp
next
  case (Cons k ks)
  let ?Nv = "2 * length rs"
  let ?ind = "new_individual xmin xmax ?Nv (rinit k)"
  have r: "\<forall>j. 0 \<le> rinit k j \<and> rinit k j < 1" using assms(3) by (simp add: valid_rinit_def)
  have p: "pos_row ?Nv ?ind" using new_individual_pos[OF assms(2) r] .
  obtain f where f: "fitness sc rs ps ?ind = Inr f"
    using fitness_total[OF assms(1) pos_row_pickups[OF p new_individual_length]] by blast
  from Cons.IH obtain rows where rows: "init_loop sc rs ps xmin xmax rinit ks = Inr rows"
    "list_all (pos_row ?Nv) rows" by blast
  have "pos_row ?Nv (?ind @ [f])" using p by (simp add: pos_row_append new_individual_length)
  with f rows show ?case by (simp add: Let_def)
qed

lemma initial_state_total:
  assumes "wf_pairs rs ps" "bounds_pos xmin xmax (2 * length rs)" "valid_rinit rinit"
    and "0 < GA_Ni cfg"
  shows "\<exists>st. initial_state sc cfg rs ps xmin xmax rinit = Inr st \<and>
           pop_pos (2 * length rs) (X st)"
proof -
  let ?Nv = "2 * length rs"
  from init_loop_total[OF assms(1-3)] obtain rows where
    r: "init_loop sc rs ps xmin xmax rinit [0..<GA_Ni cfg] = Inr rows"
    and p: "list_all (pos_row ?Nv) rows" by blast
  from init_loop_rows[OF r] have "length rows = GA_Ni cfg" by (auto dest: list_all2_lengthD)
  then have "rows \<noteq> []" using assms(4) by auto
  then have "sort_pop ?Nv rows \<noteq> []" by (rule sort_pop_nonempty)
  then have "initial_state sc cfg rs ps xmin xmax rinit =
      Inr \<lparr>X = sort_pop ?Nv rows, X_best = sort_pop ?Nv rows ! 0, stall = 0\<rparr>"
    by (simp add: initial_state_def r py_get_def Let_def)
  moreover have "pop_pos ?Nv (sort_pop ?Nv rows)"
    using p unfolding pop_pos_sort by (simp add: pop_pos_def)
  ultimately show ?thesis by simp
qed

lemma min_inf_pos: "some_pos m \<Longrightarrow> 0 < x \<Longrightarrow> \<exists>y. min_inf m x = Some y \<and> 0 < y"
  by (cases m) (auto simp: some_pos_def)

lemma dict_get_idx_distinct:
  assumes "distinct rs" "i < length rs"
  shows "dict_get (idx rs) (rs ! i) = Inr i"
proof -
  have "rs ! i \<in> set rs" using assms(2) by simp
  from dict_get_idx[OF this] obtain j where j: "j < length rs" "dict_get (idx rs) (rs ! i) = Inr j"
    by blast
  from dict_get_idx_sound[OF j(2)] have "rs ! j = rs ! i" by simp
  with assms j(1) have "j = i" by (simp add: nth_eq_iff_index_eq)
  with j(2) show ?thesis by simp
qed

lemma IscMin_loop_total:
  assumes d: "distinct rs"
  shows "wf_pairs rs ps \<Longrightarrow> list_all (\<lambda>p. 0 < Ishc_main p \<and> 0 < Ishc_backup p) ps \<Longrightarrow>
     length acc = length rs \<Longrightarrow> list_all some_pos acc \<Longrightarrow>
     \<exists>res. IscMin_loop rs ps acc = Inr res \<and> length res = length rs \<and> list_all some_pos res \<and>
       (\<forall>i<length rs. acc ! i \<noteq> None \<or>
           (\<exists>p\<in>set ps. main_relay p = rs ! i \<or> backup_relay p = rs ! i) \<longrightarrow> res ! i \<noteq> None)"
proof (induction ps arbitrary: acc)
  case Nil
  then show ?case by simp
next
  case (Cons p ps)
  from Cons.prems(1) have pm: "main_relay p \<in> set rs" and pb: "backup_relay p \<in> set rs"
    and wf: "wf_pairs rs ps" by (simp_all add: wf_pairs_def)
  from Cons.prems(2) have im: "0 < Ishc_main p" and ib: "0 < Ishc_backup p"
    and pos: "list_all (\<lambda>p. 0 < Ishc_main p \<and> 0 < Ishc_backup p) ps" by simp_all
  obtain mi where mi: "mi < length rs" "dict_get (idx rs) (main_relay p) = Inr mi"
    using dict_get_idx[OF pm] by blast
  obtain bi where bi: "bi < length rs" "dict_get (idx rs) (backup_relay p) = Inr bi"
    using dict_get_idx[OF pb] by blast
  have rm: "rs ! mi = main_relay p" using dict_get_idx_sound[OF mi(2)] by simp
  have rb: "rs ! bi = backup_relay p" using dict_get_idx_sound[OF bi(2)] by simp
  let ?a1 = "acc[mi := min_inf (acc ! mi) (Ishc_main p)]"
  let ?a2 = "?a1[bi := min_inf (?a1 ! bi) (Ishc_backup p)]"
  have sp: "\<And>i. i < length rs \<Longrightarrow> some_pos (acc ! i)"
    using Cons.prems(3,4) by (simp add: list_all_length)
  obtain y1 where y1: "min_inf (acc ! mi) (Ishc_main p) = Some y1" "0 < y1"
    using min_inf_pos[OF sp[OF mi(1)] im] by blast
  have sy1: "some_pos (Some y1)" using y1(2) by (simp add: some_pos_def)
  have sp1: "\<And>i. i < length rs \<Longrightarrow> some_pos (?a1 ! i)"
  proof -
    fix i assume i: "i < length rs"
    show "some_pos (?a1 ! i)"
    proof (cases "i = mi")
      case True
      then show ?thesis using sy1 y1(1) mi(1) Cons.prems(3) by simp
    next
      case False
      then show ?thesis using sp[OF i] by simp
    qed
  qed
  obtain y2 where y2: "min_inf (?a1 ! bi) (Ishc_backup p) = Some y2" "0 < y2"
    using min_inf_pos[OF sp1[OF bi(1)] ib] by blast
  have sy2: "some_pos (Some y2)" using y2(2) by (simp add: some_pos_def)
  have sp2: "\<And>i. i < length rs \<Longrightarrow> some_pos (?a2 ! i)"
  proof -
    fix i assume i: "i < length rs"
    show "some_pos (?a2 ! i)"
    proof (cases "i = bi")
      case True
      then show ?thesis using sy2 y2(1) bi(1) Cons.prems(3) by simp
    next
      case False
      then show ?thesis using sp1[OF i] by simp
    qed
  qed
  have l2: "length ?a2 = length rs" using Cons.prems(3) by simp
  have g2: "list_all some_pos ?a2" using sp2 l2 by (simp add: list_all_length)
  from Cons.IH[OF wf pos l2 g2] obtain res where
    res: "IscMin_loop rs ps ?a2 = Inr res" "length res = length rs" "list_all some_pos res"
    and cov: "\<forall>i<length rs. ?a2 ! i \<noteq> None \<or>
           (\<exists>p\<in>set ps. main_relay p = rs ! i \<or> backup_relay p = rs ! i) \<longrightarrow> res ! i \<noteq> None"
    by blast
  have run: "IscMin_loop rs (p # ps) acc = Inr res"
    using mi(2) bi(2) res(1) by (simp add: Let_def)
  have "\<forall>i<length rs. acc ! i \<noteq> None \<or>
           (\<exists>q\<in>set (p # ps). main_relay q = rs ! i \<or> backup_relay q = rs ! i) \<longrightarrow> res ! i \<noteq> None"
  proof (intro allI impI)
    fix i assume i: "i < length rs"
      and h: "acc ! i \<noteq> None \<or> (\<exists>q\<in>set (p # ps). main_relay q = rs ! i \<or> backup_relay q = rs ! i)"
    have "?a2 ! i \<noteq> None \<or> (\<exists>q\<in>set ps. main_relay q = rs ! i \<or> backup_relay q = rs ! i)"
    proof (cases "i = bi")
      case True
      then show ?thesis using y2 bi(1) Cons.prems(3) by simp
    next
      case nb: False
      show ?thesis
      proof (cases "i = mi")
        case True
        then show ?thesis using y1 nb mi(1) Cons.prems(3) by simp
      next
        case nm: False
        have "main_relay p \<noteq> rs ! i"
          using nm rm d i mi(1) by (metis nth_eq_iff_index_eq)
        moreover have "backup_relay p \<noteq> rs ! i"
          using nb rb d i bi(1) by (metis nth_eq_iff_index_eq)
        ultimately show ?thesis using h nb nm by auto
      qed
    qed
    with cov i show "res ! i \<noteq> None" by blast
  qed
  with run res(2,3) show ?case by blast
qed

lemma bounds_total:
  assumes "wf_scenario rs ps"
  shows "\<exists>xmin xmax. bounds rs ps = Inr (xmin, xmax) \<and> bounds_pos xmin xmax (2 * length rs)"
proof -
  let ?n = "length rs"
  from assms have d: "distinct rs" and wf: "wf_pairs rs ps"
    and cov: "\<forall>r\<in>set rs. \<exists>p\<in>set ps. main_relay p = r \<or> backup_relay p = r"
    and pos: "list_all (\<lambda>p. 0 < Ishc_main p \<and> 0 < Ishc_backup p) ps"
    by (auto simp: wf_scenario_def list_all_iff list_ex_iff)
  have a0: "length (replicate ?n (None :: real option)) = ?n" by simp
  have g0: "list_all some_pos (replicate ?n None)" by (simp add: list_all_iff some_pos_def)
  from IscMin_loop_total[OF d wf pos a0 g0] obtain res where
    res: "IscMin_loop rs ps (replicate ?n None) = Inr res" "length res = ?n" "list_all some_pos res"
    and c: "\<forall>i<?n. replicate ?n (None :: real option) ! i \<noteq> None \<or>
           (\<exists>p\<in>set ps. main_relay p = rs ! i \<or> backup_relay p = rs ! i) \<longrightarrow> res ! i \<noteq> None"
    by blast
  have some: "\<And>i. i < ?n \<Longrightarrow> \<exists>y. res ! i = Some y \<and> 0 < y"
  proof -
    fix i assume i: "i < ?n"
    then have "rs ! i \<in> set rs" by simp
    with cov have "\<exists>p\<in>set ps. main_relay p = rs ! i \<or> backup_relay p = rs ! i" by blast
    with c i have "res ! i \<noteq> None" by blast
    then obtain y where y: "res ! i = Some y" by auto
    have "some_pos (res ! i)" using res(2,3) i by (simp add: list_all_length)
    with y show "\<exists>y. res ! i = Some y \<and> 0 < y" by (simp add: some_pos_def)
  qed
  have all: "list_all (\<lambda>m. m \<noteq> None) res"
    using some res(2) by (auto simp: list_all_length)
  let ?xmax = "replicate ?n MAX_TDS @ map (\<lambda>i. MAX_PICKUP_FACTOR * the (res ! i)) [0..<?n]"
  have x: "xmax_of rs res = Inr ?xmax" using all by (simp add: xmax_of_def)
  have b: "bounds rs ps = Inr (xmin_of rs, ?xmax)" by (simp add: bounds_def res(1) x)
  have "bounds_pos (xmin_of rs) ?xmax (2 * ?n)"
    unfolding bounds_pos_def
  proof (intro conjI)
    show "length (xmin_of rs) = 2 * ?n" by (simp add: xmin_of_def)
    show "length ?xmax = 2 * ?n" by simp
    show "list_all (\<lambda>j. 0 < xmin_of rs ! j \<and> 0 < ?xmax ! j) [0..<2 * ?n]"
      unfolding list_all_iff
    proof
      fix j assume "j \<in> set [0..<2 * ?n]"
      then have j: "j < 2 * ?n" by simp
      show "0 < xmin_of rs ! j \<and> 0 < ?xmax ! j"
      proof (cases "j < ?n")
        case True
        then show ?thesis by (simp add: xmin_of_def nth_append consts_defs)
      next
        case False
        then have k: "j - ?n < ?n" using j by simp
        from some[OF k] obtain y where "res ! (j - ?n) = Some y" "0 < y" by blast
        then show ?thesis using False k by (simp add: xmin_of_def nth_append consts_defs)
      qed
    qed
  qed
  with b show ?thesis by blast
qed

text \<open>
  In exact arithmetic a run raises nothing on a scenario as the grouping step builds
  them: distinct relays, every relay in a pair, every pair between relays of the
  scenario, positive fault currents.
\<close>

lemma ga_run_total:
  assumes "wf_scenario rs ps" "valid_rinit rinit"
    and "\<forall>n. valid_draw cfg (2 * length rs) (rgen n)" "0 < GA_maxGen cfg"
  shows "\<exists>st g. ga_run sc cfg rs ps rinit rgen = Inr (st, g)"
proof -
  let ?Nv = "2 * length rs"
  from bounds_total[OF assms(1)] obtain xmin xmax where
    b: "bounds rs ps = Inr (xmin, xmax)" and bp: "bounds_pos xmin xmax ?Nv" by blast
  have wf: "wf_pairs rs ps" using assms(1) by (simp add: wf_scenario_def)
  have "s1 (rgen 0) < GA_Ni cfg" using assms(3) by (simp add: valid_draw_def)
  then have ni: "0 < GA_Ni cfg" by simp
  from initial_state_total[OF wf bp assms(2) ni] obtain st0 where
    i: "initial_state sc cfg rs ps xmin xmax rinit = Inr st0" and p0: "pop_pos ?Nv (X st0)"
    by blast
  have s0: "pop_shape cfg ?Nv (X st0)" using initial_state_shape[OF i] by simp
  from ga_loop_total[OF wf bp assms(3) s0 p0] obtain st g where
    "ga_loop sc cfg rs ps xmin xmax rgen 1 st0 = Inr (st, g)" by blast
  then show ?thesis using b i assms(4) by (simp add: ga_run_def)
qed

section \<open>Evaluation of the examples\<close>

subsection \<open>The relay curve between three and four times the pickup\<close>

lemma ln_lower: "0 < x \<Longrightarrow> 1 - 1 / x \<le> ln (x::real)"
proof -
  assume x: "0 < x"
  then have "ln (1 / x) \<le> 1 / x - 1" by (intro ln_le_minus_one) simp
  moreover have "ln (1 / x) = - ln x" using x by (simp add: ln_div)
  ultimately show ?thesis by linarith
qed

lemma powr_N_bounds:
  assumes "3 \<le> x" "x \<le> 4"
  shows "1 / 75 \<le> x powr N - 1 \<and> x powr N - 1 \<le> 1 / 10"
proof -
  have x0: "0 < x" using assms by simp
  have p: "x powr N = exp (N * ln x)" using x0 by (simp add: powr_def)
  have l1: "2 / 3 \<le> ln x"
  proof -
    have "1 / x \<le> 1 / 3" using assms(1) by (simp add: field_simps)
    with ln_lower[OF x0] show ?thesis by linarith
  qed
  have l2: "ln x \<le> 3" using ln_le_minus_one[OF x0] assms(2) by linarith
  have y1: "1 / 75 \<le> N * ln x" using l1 by (simp add: N_def)
  have y2: "N * ln x \<le> 3 / 50" using l2 by (simp add: N_def)
  have "1 + N * ln x \<le> exp (N * ln x)" by (rule exp_ge_add_one_self)
  then have lo: "1 / 75 \<le> x powr N - 1" using p y1 by linarith
  have y0: "0 \<le> N * ln x" using y1 by linarith
  have "exp (N * ln x) \<le> 1 + N * ln x + (N * ln x)\<^sup>2"
    using y0 y2 by (intro exp_bound) simp_all
  moreover have "(N * ln x)\<^sup>2 \<le> (3 / 50)\<^sup>2"
    using y0 y2 by (intro power_mono) simp_all
  ultimately have "exp (N * ln x) \<le> 1 + 3 / 50 + (3 / 50)\<^sup>2" using y2 by linarith
  also have "\<dots> \<le> 1 + 1 / 10" by (simp add: power2_eq_square)
  finally have hi: "x powr N - 1 \<le> 1 / 10" using p by linarith
  from lo hi show ?thesis by simp
qed

text \<open>
  With a fault current between three and four times the pickup, the relay time is the
  time dial times a factor between 1.4 and 10.5, in both scripts: neither the sentinel
  nor the clamp is reached.
\<close>

lemma curve_bounds:
  assumes "0 < PU" "3 * PU \<le> I" "I \<le> 4 * PU"
  shows "7 / 5 \<le> curve I PU \<and> curve I PU \<le> 21 / 2"
proof -
  have x: "3 \<le> I / PU" "I / PU \<le> 4" using assms by (simp_all add: field_simps)
  from powr_N_bounds[OF x] have d: "1 / 75 \<le> (I / PU) powr N - 1" "(I / PU) powr N - 1 \<le> 1 / 10"
    by simp_all
  let ?d = "(I / PU) powr N - 1"
  have d0: "0 < ?d" using d(1) by linarith
  have "K / ?d \<le> K / (1 / 75)" using d(1) by (intro divide_left_mono) (simp_all add: K_def)
  moreover have "K / (1 / 10) \<le> K / ?d" using d(2) d0 by (intro divide_left_mono) (simp_all add: K_def)
  ultimately show ?thesis by (simp add: curve_def K_def)
qed

lemma relay_time_curve:
  assumes "0 < PU" "3 * PU \<le> I" "I \<le> 4 * PU" "0 \<le> t" "t \<le> 4 / 5"
  shows "relay_time sc I PU t = Inr (t * curve I PU)"
proof -
  have lt: "PU < I" using assms(1,2) by linarith
  have b: "relay_time_body I PU t =
      Inr (min (max (t * (K / ((I / PU) powr N - 1))) 0) (MAX_TIME * 10))"
    using relay_time_body_pos[OF assms(1) lt] .
  from curve_bounds[OF assms(1-3)] have c: "7 / 5 \<le> curve I PU" "curve I PU \<le> 21 / 2"
    by simp_all
  have t0: "0 \<le> t * curve I PU" using assms(4) c(1) by simp
  have "t * curve I PU \<le> (4 / 5) * (21 / 2)"
    using assms(4,5) c by (intro mult_mono) simp_all
  then have t1: "t * curve I PU \<le> MAX_TIME * 10" by (simp add: MAX_TIME_def)
  have "min (max (t * (K / ((I / PU) powr N - 1))) 0) (MAX_TIME * 10) = t * curve I PU"
    using t0 t1 by (simp add: curve_def)
  with b lt show ?thesis by (cases sc) (simp_all add: relay_time_def)
qed

lemma relay_time_curve_le:
  assumes "0 < PU" "3 * PU \<le> I" "I \<le> 4 * PU" "0 \<le> t" "t \<le> 4 / 5"
  shows "t * curve I PU \<le> MAX_TIME"
proof -
  from curve_bounds[OF assms(1-3)] have c: "7 / 5 \<le> curve I PU" "curve I PU \<le> 21 / 2"
    by simp_all
  have "t * curve I PU \<le> (4 / 5) * (21 / 2)"
    using assms(4,5) c by (intro mult_mono) simp_all
  then show ?thesis by (simp add: MAX_TIME_def)
qed

text \<open>The fitness on the example scenario, for equal pickups between 250 and 1000 / 3.\<close>

lemma pair_times_ex:
  assumes "0 \<le> a" "a \<le> 4 / 5" "0 \<le> b" "b \<le> 4 / 5" "250 \<le> p" "3 * p \<le> 1000"
  shows "pair_times sc ex_rs [a, b, p, p] ex_pair = Inr (a * curve 1000 p, b * curve 1000 p)"
proof -
  have p: "0 < p" "3 * p \<le> 1000" "1000 \<le> 4 * p" using assms(5,6) by simp_all
  show ?thesis
    by (simp add: pair_times_def idx_ex dict_get_def py_get_def ex_pair_def len_ex Let_def
        relay_time_curve[OF p assms(1,2)] relay_time_curve[OF p assms(3,4)])
qed

lemma fitness_ex_equal:
  assumes "0 \<le> a" "a \<le> 4 / 5" "250 \<le> p" "3 * p \<le> 1000"
  shows "fitness sc ex_rs [ex_pair] [a, a, p, p] = Inr (1 / 5)"
proof -
  have p: "0 < p" "3 * p \<le> 1000" "1000 \<le> 4 * p" using assms(3,4) by simp_all
  have "a * curve 1000 p \<le> MAX_TIME" using relay_time_curve_le[OF p assms(1,2)] .
  then show ?thesis
    by (simp add: fitness_def pair_times_ex[OF assms(1,2) assms(1,2) assms(3,4)]
        add_penalties_def CTI_def)
qed

lemma fitness_ex_graded:
  assumes "0 \<le> a" "a + 1 / 7 \<le> b" "b \<le> 4 / 5" "250 \<le> p" "3 * p \<le> 1000"
  shows "fitness sc ex_rs [ex_pair] [a, b, p, p] = Inr 0"
proof -
  have p: "0 < p" "3 * p \<le> 1000" "1000 \<le> 4 * p" using assms(4,5) by simp_all
  have a: "a \<le> 4 / 5" and b: "0 \<le> b" using assms(1-3) by linarith+
  from curve_bounds[OF p] have c: "7 / 5 \<le> curve 1000 p" by simp
  have tM: "a * curve 1000 p \<le> MAX_TIME" using relay_time_curve_le[OF p assms(1) a] .
  have "(1 / 7) * (7 / 5) \<le> (b - a) * curve 1000 p"
    using assms(2) c by (intro mult_mono) simp_all
  then have "CTI \<le> b * curve 1000 p - a * curve 1000 p"
    by (simp add: CTI_def algebra_simps)
  with tM show ?thesis
    by (simp add: fitness_def pair_times_ex[OF assms(1) a b assms(3) assms(4,5)]
        add_penalties_def)
qed

subsection \<open>The first run\<close>

lemma bounds_ex: "bounds ex_rs [ex_pair] = Inr (ex_xmin, ex_xmax)"
  by (simp add: bounds_def idx_ex dict_get_def ex_pair_def len_ex Let_def xmax_of_def xmin_of_def
      ex_xmin_def ex_xmax_def consts_defs upt_rec numeral_2_eq_2)

lemma fitness_ex_mid: "fitness sc ex_rs [ex_pair] ex_mid = Inr (1 / 5)"
  unfolding ex_mid_def by (rule fitness_ex_equal) simp_all

lemma fitness_ex_better: "fitness sc ex_rs [ex_pair] ex_better = Inr 0"
  unfolding ex_better_def by (rule fitness_ex_graded) simp_all

lemma new_individual_ex: "new_individual ex_xmin ex_xmax 4 (ex_rinit k) = ex_mid"
  by (simp add: new_individual_def ex_xmin_def ex_xmax_def ex_rinit_def ex_mid_def upt_rec)

lemma init_loop_ex:
  "init_loop sc ex_rs [ex_pair] ex_xmin ex_xmax ex_rinit [0..<GA_Ni ex_cfg] =
   Inr [ex_mid @ [1 / 5], ex_mid @ [1 / 5]]"
  by (simp add: ex_cfg_def upt_rec len_ex new_individual_ex fitness_ex_mid)

lemma sort_ex0: "sort_pop 4 [ex_mid @ [1 / 5], ex_mid @ [1 / 5]] = [ex_mid @ [1 / 5], ex_mid @ [1 / 5]]"
  by (simp add: sort_pop_def)

lemma initial_state_ex:
  "initial_state sc ex_cfg ex_rs [ex_pair] ex_xmin ex_xmax ex_rinit = Inr ex_st0"
  by (simp add: initial_state_def init_loop_ex len_ex sort_ex0 py_get_def ex_st0_def)

lemmas ex_lists = ex_mid_def ex_better_def ex_xmin_def ex_xmax_def

lemmas fitness_ex_lits = fitness_ex_mid[unfolded ex_mid_def] fitness_ex_better[unfolded ex_better_def]

lemma candidates_same:
  "candidates sc ex_cfg ex_rs [ex_pair] ex_xmin ex_xmax (X ex_st0) ex_draw_same =
   Inr ((ex_mid, 1 / 5), (ex_mid, 1 / 5))"
  by (simp add: candidates_def ex_cfg_def ex_st0_def ex_draw_same_def py_get_def len_ex
      ex_lists fitness_ex_lits Let_def)

lemma candidates_better:
  "candidates sc ex_cfg ex_rs [ex_pair] ex_xmin ex_xmax (X ex_st0) ex_draw_better =
   Inr ((ex_better, 0), (ex_mid, 1 / 5))"
  by (simp add: candidates_def ex_cfg_def ex_st0_def ex_draw_better_def py_get_def len_ex
      ex_lists fitness_ex_lits Let_def)

lemma best_child_same:
  "best_child sc ex_cfg ex_rs [ex_pair] ex_xmin ex_xmax (X ex_st0) ex_draw_same = Inr (ex_mid, 1 / 5)"
  by (simp add: best_child_def candidates_same)

lemma best_child_better:
  "best_child sc ex_cfg ex_rs [ex_pair] ex_xmin ex_xmax (X ex_st0) ex_draw_better = Inr (ex_better, 0)"
  by (simp add: best_child_def candidates_better)

lemma replaces_same: "\<not> replaces ex_cfg 4 (X ex_st0) ex_mid (1 / 5)"
  by (simp add: replaces_def ex_st0_def ex_mid_def)

lemma replaces_better: "replaces ex_cfg 4 (X ex_st0) ex_better 0"
  by (simp add: replaces_def ex_st0_def ex_mid_def ex_better_def duplicate_def near_def ex_cfg_def
      upt_rec)

lemma len4: "2 * length ex_rs = 4"
  by (simp add: len_ex)

lemma X_ex0: "X ex_st0 = [ex_mid @ [1 / 5], ex_mid @ [1 / 5]]"
  by (simp add: ex_st0_def)

lemma py_last_ex0: "py_last (X ex_st0) = Inr (ex_mid @ [1 / 5])"
  by (simp add: py_last_def X_ex0)

lemma update_same: "update_best 4 (sort_pop 4 (X ex_st0)) ex_st0 = Inr ex_st0_stalled"
  by (simp add: X_ex0 sort_ex0 update_best_def py_get_def)
     (simp add: ex_st0_def ex_st0_stalled_def ex_mid_def)

lemma update_better:
  "update_best 4 (sort_pop 4 ((X ex_st0)[length (X ex_st0) - 1 := ex_better @ [0]])) ex_st0 =
   Inr ex_st1"
proof -
  have "sort_pop 4 ((X ex_st0)[length (X ex_st0) - 1 := ex_better @ [0]]) =
        [ex_better @ [0], ex_mid @ [1 / 5]]"
    by (simp add: X_ex0 sort_pop_def ex_mid_def ex_better_def)
  then show ?thesis
    by (simp add: update_best_def py_get_def) (simp add: ex_st0_def ex_st1_def ex_mid_def ex_better_def)
qed

lemma generation_same_fast:
  "generation Fast ex_cfg ex_rs [ex_pair] ex_xmin ex_xmax ex_st0 ex_draw_same =
   Inr ex_st0_stalled"
  unfolding generation_def len4
  by (simp add: best_child_same py_last_ex0 replaces_same update_same)

lemma generation_same_all:
  "generation AllScenarios ex_cfg ex_rs [ex_pair] ex_xmin ex_xmax ex_st0 ex_draw_same = Inr ex_st0"
  unfolding generation_def len4
  by (simp add: best_child_same py_last_ex0 replaces_same)

lemma generation_better:
  "generation sc ex_cfg ex_rs [ex_pair] ex_xmin ex_xmax ex_st0 ex_draw_better = Inr ex_st1"
  unfolding generation_def len4
  using update_better
  by (cases sc) (simp_all add: best_child_better py_last_ex0 replaces_better)

lemma ex_cfg_fields:
  "GA_Ni ex_cfg = 2" "GA_iterno ex_cfg = 1" "GA_maxGen ex_cfg = 2" "GA_nMut ex_cfg = 2"
  by (simp_all add: ex_cfg_def)

lemma stops_ex0: "\<not> stops ex_cfg 4 ex_st0"
  by (simp add: stops_def ex_cfg_fields ex_st0_def ex_mid_def)

lemma stops_ex0_stalled: "stops ex_cfg 4 ex_st0_stalled"
  by (simp add: stops_def ex_cfg_fields ex_st0_stalled_def)

lemma stops_ex1: "stops ex_cfg 4 ex_st1"
  by (simp add: stops_def ex_st1_def ex_better_def)

lemma ga_loop_ex_fast:
  "ga_loop Fast ex_cfg ex_rs [ex_pair] ex_xmin ex_xmax ex_rgen (Suc 0) ex_st0 =
   Inr (ex_st0_stalled, Suc 0)"
  by (subst ga_loop.simps)
     (simp add: ex_cfg_fields ex_rgen_def generation_same_fast len4 stops_ex0_stalled)

lemma ga_loop_ex_all_3:
  "ga_loop AllScenarios ex_cfg ex_rs [ex_pair] ex_xmin ex_xmax ex_rgen 3 ex_st0 = Inr (ex_st0, 2)"
  by (subst ga_loop.simps) (simp add: ex_cfg_fields)

lemma ga_loop_ex_all_2:
  "ga_loop AllScenarios ex_cfg ex_rs [ex_pair] ex_xmin ex_xmax ex_rgen 2 ex_st0 = Inr (ex_st0, 2)"
  by (subst ga_loop.simps)
     (simp add: ex_cfg_fields ex_rgen_def generation_same_all len4 stops_ex0 ga_loop_ex_all_3)

lemma ga_loop_ex_all:
  "ga_loop AllScenarios ex_cfg ex_rs [ex_pair] ex_xmin ex_xmax ex_rgen (Suc 0) ex_st0 =
   Inr (ex_st0, 2)"
  by (subst ga_loop.simps)
     (simp add: ex_cfg_fields ex_rgen_def generation_same_all len4 stops_ex0 ga_loop_ex_all_2
        numeral_2_eq_2[symmetric])

lemma ga_run_ex_fast:
  "ga_run Fast ex_cfg ex_rs [ex_pair] ex_rinit ex_rgen = Inr (ex_st0_stalled, 1)"
  by (simp add: ga_run_def bounds_ex initial_state_ex ex_cfg_fields ga_loop_ex_fast)

lemma ga_run_ex_all:
  "ga_run AllScenarios ex_cfg ex_rs [ex_pair] ex_rinit ex_rgen = Inr (ex_st0, 2)"
  by (simp add: ga_run_def bounds_ex initial_state_ex ex_cfg_fields ga_loop_ex_all)

lemma valid_rinit_ex: "valid_rinit ex_rinit"
  by (simp add: valid_rinit_def ex_rinit_def)

lemma valid_draw_same: "valid_draw ex_cfg 4 ex_draw_same"
  by (simp add: valid_draw_def valid_mut_def ex_cfg_fields ex_draw_same_def)



subsection \<open>The scenario with empty pickup intervals\<close>





subsection \<open>The second run\<close>

lemma fitness_ex_other: "fitness sc ex_rs [ex_pair] ex_other = Inr (1 / 5)"
  unfolding ex_other_def by (rule fitness_ex_equal) simp_all

lemma fitness_ex_cross:
  "fitness sc ex_rs [ex_pair] [17 / 40, 17 / 40, 108011 / 400, 108011 / 400] = Inr (1 / 5)"
  by (rule fitness_ex_equal) simp_all

lemma initial_state_ex2:
  "initial_state sc ex_cfg ex_rs [ex_pair] ex_xmin ex_xmax ex_rinit2 = Inr ex_st2"
proof -
  have n0: "new_individual ex_xmin ex_xmax 4 (ex_rinit2 0) = ex_other"
    by (simp add: new_individual_def ex_xmin_def ex_xmax_def ex_rinit2_def ex_other_def upt_rec)
  have n1: "new_individual ex_xmin ex_xmax 4 (ex_rinit2 (Suc 0)) = ex_mid"
    by (simp add: new_individual_def ex_xmin_def ex_xmax_def ex_rinit2_def ex_mid_def upt_rec)
  have "init_loop sc ex_rs [ex_pair] ex_xmin ex_xmax ex_rinit2 [0..<GA_Ni ex_cfg] =
        Inr [ex_other @ [1 / 5], ex_mid @ [1 / 5]]"
    by (simp add: ex_cfg_fields upt_rec len_ex n0 n1 fitness_ex_other fitness_ex_mid)
  then show ?thesis
    by (simp add: initial_state_def len_ex sort_pop_def py_get_def ex_st2_def ex_other_def ex_mid_def)
qed

lemma candidates_ex2:
  "candidates sc ex_cfg ex_rs [ex_pair] ex_xmin ex_xmax (X ex_st2) ex_draw2 =
   Inr ((ex_better, 0), ([17 / 40, 17 / 40, 108011 / 400, 108011 / 400], 1 / 5))"
  by (simp add: candidates_def ex_cfg_def ex_st2_def ex_draw2_def py_get_def len_ex
      ex_lists ex_other_def fitness_ex_lits fitness_ex_cross Let_def)

lemma best_child_ex2:
  "best_child sc ex_cfg ex_rs [ex_pair] ex_xmin ex_xmax (X ex_st2) ex_draw2 = Inr (ex_better, 0)"
  by (simp add: best_child_def candidates_ex2)

lemma replaces_ex2: "replaces ex_cfg 4 (X ex_st2) ex_better 0"
  by (simp add: replaces_def ex_st2_def ex_mid_def ex_other_def ex_better_def duplicate_def
      near_def ex_cfg_def upt_rec)

lemma update_ex2:
  "update_best 4 (sort_pop 4 ((X ex_st2)[length (X ex_st2) - 1 := ex_better @ [0]])) ex_st2 =
   Inr ex_st3"
proof -
  have "sort_pop 4 ((X ex_st2)[length (X ex_st2) - 1 := ex_better @ [0]]) =
        [ex_better @ [0], ex_other @ [1 / 5]]"
    by (simp add: ex_st2_def sort_pop_def ex_other_def ex_better_def)
  then show ?thesis
    by (simp add: update_best_def py_get_def)
       (simp add: ex_st2_def ex_st3_def ex_other_def ex_better_def)
qed

lemma generation_ex2:
  "generation sc ex_cfg ex_rs [ex_pair] ex_xmin ex_xmax ex_st2 ex_draw2 = Inr ex_st3"
proof -
  have l: "py_last (X ex_st2) = Inr (ex_mid @ [1 / 5])"
    by (simp add: py_last_def ex_st2_def)
  show ?thesis
    unfolding generation_def len4
    using update_ex2
    by (cases sc) (simp_all add: best_child_ex2 l replaces_ex2)
qed

lemma ga_run_ex2: "ga_run sc ex_cfg ex_rs [ex_pair] ex_rinit2 ex_rgen2 = Inr (ex_st3, 1)"
proof -
  have s: "stops ex_cfg 4 ex_st3"
    by (simp add: stops_def ex_st3_def ex_better_def)
  have "ga_loop sc ex_cfg ex_rs [ex_pair] ex_xmin ex_xmax ex_rgen2 (Suc 0) ex_st2 =
        Inr (ex_st3, Suc 0)"
    by (subst ga_loop.simps) (simp add: ex_cfg_fields ex_rgen2_def generation_ex2 len4 s)
  then show ?thesis
    by (simp add: ga_run_def bounds_ex initial_state_ex2 ex_cfg_fields)
qed

section \<open>The claims about the generation step and the run\<close>

text \<open>
  C2: a generation evaluates the two mutated children and keeps the one of lower fitness
  (the first one on a tie). It replaces the worst individual (the last one of the sorted
  population, of the highest fitness) by that child exactly when the fitness of the child
  is strictly below the fitness of the worst individual and no individual of the
  population has all its \<open>Nv\<close> genes within \<open>1e-12\<close> of the genes of the child; otherwise the
  population is unchanged. The population keeps its \<^verbatim>\<open>GA_Ni\<close> individuals and stays
  sorted. Both scripts.
\<close>

theorem replacement_gate:
  assumes "generation sc cfg rs ps xmin xmax st d = Inr st'"
    and "sorted_pop (2 * length rs) (X st)"
    and "length (X st) = GA_Ni cfg"
  shows "\<exists>H1 f1 H2 f2 child fchild.
     candidates sc cfg rs ps xmin xmax (X st) d = Inr ((H1, f1), (H2, f2)) \<and>
     fitness sc rs ps H1 = Inr f1 \<and> fitness sc rs ps H2 = Inr f2 \<and>
     (child, fchild) = (if f1 \<le> f2 then (H1, f1) else (H2, f2)) \<and>
     fchild \<le> f1 \<and> fchild \<le> f2 \<and>
     best_child sc cfg rs ps xmin xmax (X st) d = Inr (child, fchild) \<and>
     (\<forall>r\<in>set (X st). r ! (2 * length rs) \<le> last (X st) ! (2 * length rs)) \<and>
     (if fchild < last (X st) ! (2 * length rs) \<and>
         \<not> (\<exists>q\<in>set (X st). \<forall>j<2 * length rs. \<bar>child ! j - q ! j\<bar> < 1 / 10 ^ 12)
      then mset (X st') = mset (butlast (X st)) + {#child @ [fchild]#}
      else X st' = X st) \<and>
     length (X st') = GA_Ni cfg \<and> sorted_pop (2 * length rs) (X st')"
proof -
  let ?Nv = "2 * length rs"
  from generation_X[OF assms(1,2)] obtain child fchild where
    bc: "best_child sc cfg rs ps xmin xmax (X st) d = Inr (child, fchild)"
    and ne: "X st \<noteq> []"
    and x: "X st' = (if replaces cfg ?Nv (X st) child fchild
                    then sort_pop ?Nv (butlast (X st) @ [child @ [fchild]])
                    else X st)" by blast
  from best_child_select[OF bc] obtain H1 f1 H2 f2 where
    c: "candidates sc cfg rs ps xmin xmax (X st) d = Inr ((H1, f1), (H2, f2))"
    and sel: "(child, fchild) = (if f1 \<le> f2 then (H1, f1) else (H2, f2))" by blast
  from candidates_fitness[OF c] have fit: "fitness sc rs ps H1 = Inr f1" "fitness sc rs ps H2 = Inr f2"
    by simp_all
  from sel have le: "fchild \<le> f1" "fchild \<le> f2"
    by (simp_all split: if_splits)
  have worst: "\<forall>r\<in>set (X st). r ! ?Nv \<le> last (X st) ! ?Nv"
    using sorted_pop_last[OF assms(2)] by blast
  have r: "replaces cfg ?Nv (X st) child fchild \<longleftrightarrow>
      fchild < last (X st) ! ?Nv \<and>
      \<not> (\<exists>q\<in>set (X st). \<forall>j<?Nv. \<bar>child ! j - q ! j\<bar> < 1 / 10 ^ 12)"
    by (simp only: replaces_def duplicate_explicit[OF assms(3)])
  have gate: "(if fchild < last (X st) ! ?Nv \<and>
         \<not> (\<exists>q\<in>set (X st). \<forall>j<?Nv. \<bar>child ! j - q ! j\<bar> < 1 / 10 ^ 12)
      then mset (X st') = mset (butlast (X st)) + {#child @ [fchild]#}
      else X st' = X st)"
    using x unfolding r[symmetric] by (simp add: sort_pop_mset)
  have "length (butlast (X st) @ [child @ [fchild]]) = length (X st)"
    using ne by (cases "X st" rule: rev_cases) simp_all
  then have len: "length (X st') = GA_Ni cfg"
    using x assms(3) by (simp add: sort_pop_length)
  have srt: "sorted_pop ?Nv (X st')"
    using x assms(2) by (simp add: sort_pop_sorted)
  from c fit sel le bc worst gate len srt show ?thesis by blast
qed

theorem replacement_gate_witness:
  "generation Fast ex_cfg ex_rs [ex_pair] ex_xmin ex_xmax ex_st0 ex_draw_better = Inr ex_st1 \<and>
   sorted_pop (2 * length ex_rs) (X ex_st0) \<and> length (X ex_st0) = GA_Ni ex_cfg \<and>
   candidates Fast ex_cfg ex_rs [ex_pair] ex_xmin ex_xmax (X ex_st0) ex_draw_better =
     Inr ((ex_better, 0), (ex_mid, 1 / 5)) \<and>
   fitness Fast ex_rs [ex_pair] ex_better = Inr 0 \<and>
   fitness Fast ex_rs [ex_pair] ex_mid = Inr (1 / 5) \<and>
   best_child Fast ex_cfg ex_rs [ex_pair] ex_xmin ex_xmax (X ex_st0) ex_draw_better = Inr (ex_better, 0) \<and>
   0 < last (X ex_st0) ! (2 * length ex_rs) \<and>
   \<not> (\<exists>q\<in>set (X ex_st0). \<forall>j<2 * length ex_rs. \<bar>ex_better ! j - q ! j\<bar> < 1 / 10 ^ 12) \<and>
   mset (X ex_st1) = mset (butlast (X ex_st0)) + {#ex_better @ [0]#} \<and>
   length (X ex_st1) = GA_Ni ex_cfg \<and> sorted_pop (2 * length ex_rs) (X ex_st1)"
proof -
  have g: "generation Fast ex_cfg ex_rs [ex_pair] ex_xmin ex_xmax ex_st0 ex_draw_better = Inr ex_st1"
    by (rule generation_better)
  have s: "sorted_pop (2 * length ex_rs) (X ex_st0)"
    by (simp add: sorted_pop_def len_ex ex_st0_def ex_mid_def)
  have l: "length (X ex_st0) = GA_Ni ex_cfg"
    by (simp add: ex_st0_def ex_cfg_fields)
  have cb: "candidates Fast ex_cfg ex_rs [ex_pair] ex_xmin ex_xmax (X ex_st0) ex_draw_better =
     Inr ((ex_better, 0), (ex_mid, 1 / 5))"
    by (rule candidates_better)
  from replacement_gate[OF g s l] obtain H1 f1 H2 f2 child fchild where
    c: "candidates Fast ex_cfg ex_rs [ex_pair] ex_xmin ex_xmax (X ex_st0) ex_draw_better =
          Inr ((H1, f1), (H2, f2))"
    and fit: "fitness Fast ex_rs [ex_pair] H1 = Inr f1" "fitness Fast ex_rs [ex_pair] H2 = Inr f2"
    and sel: "(child, fchild) = (if f1 \<le> f2 then (H1, f1) else (H2, f2))"
    and bc: "best_child Fast ex_cfg ex_rs [ex_pair] ex_xmin ex_xmax (X ex_st0) ex_draw_better =
          Inr (child, fchild)"
    and gate: "(if fchild < last (X ex_st0) ! (2 * length ex_rs) \<and>
          \<not> (\<exists>q\<in>set (X ex_st0). \<forall>j<2 * length ex_rs. \<bar>child ! j - q ! j\<bar> < 1 / 10 ^ 12)
      then mset (X ex_st1) = mset (butlast (X ex_st0)) + {#child @ [fchild]#}
      else X ex_st1 = X ex_st0)"
    and len: "length (X ex_st1) = GA_Ni ex_cfg"
    and srt: "sorted_pop (2 * length ex_rs) (X ex_st1)"
    by blast
  from c cb have h: "H1 = ex_better" "f1 = 0" "H2 = ex_mid" "f2 = 1 / 5" by simp_all
  from sel h have ch: "child = ex_better" "fchild = 0" by simp_all
  have r: "0 < last (X ex_st0) ! (2 * length ex_rs) \<and>
      \<not> (\<exists>q\<in>set (X ex_st0). \<forall>j<2 * length ex_rs. \<bar>ex_better ! j - q ! j\<bar> < 1 / 10 ^ 12)"
    using replaces_better unfolding replaces_def duplicate_explicit[OF l] len4 by simp
  from gate r ch have m: "mset (X ex_st1) = mset (butlast (X ex_st0)) + {#ex_better @ [0]#}"
    by simp
  from g s l cb fit h bc ch r m len srt show ?thesis by simp
qed

text \<open>
  C3: from one generation to the next the fitness of \<^verbatim>\<open>X_best\<close> does not increase, and
  \<^verbatim>\<open>X_best\<close> changes only to the first individual of the sorted population, when that
  one has a strictly lower fitness. Both scripts.
\<close>

theorem best_fitness_nonincreasing:
  assumes "generation sc cfg rs ps xmin xmax st d = Inr st'"
  shows "X_best st' ! (2 * length rs) \<le> X_best st ! (2 * length rs) \<and>
         (X_best st' = X_best st \<or>
          (X_best st' = X st' ! 0 \<and> X st' ! 0 ! (2 * length rs) < X_best st ! (2 * length rs)))"
  using assms by (rule generation_best_le)

theorem best_fitness_nonincreasing_witness:
  "generation AllScenarios ex_cfg ex_rs [ex_pair] ex_xmin ex_xmax ex_st0 ex_draw_better = Inr ex_st1 \<and>
   X_best ex_st0 ! 4 = 1 / 5 \<and> X_best ex_st1 ! 4 = 0 \<and>
   X_best ex_st1 ! (2 * length ex_rs) \<le> X_best ex_st0 ! (2 * length ex_rs)"
proof -
  have g: "generation AllScenarios ex_cfg ex_rs [ex_pair] ex_xmin ex_xmax ex_st0 ex_draw_better
      = Inr ex_st1"
    by (rule generation_better)
  have v: "X_best ex_st0 ! 4 = 1 / 5" "X_best ex_st1 ! 4 = 0"
    by (simp_all add: ex_st0_def ex_st1_def ex_mid_def ex_better_def)
  from best_fitness_nonincreasing[OF g] g v show ?thesis by simp
qed




text \<open>
  In \<^verbatim>\<open>ga_optimization_fast.py\<close> the stall counter is reset or incremented in every
  generation.
\<close>

lemma fast_stall_every_generation:
  assumes "generation Fast cfg rs ps xmin xmax st d = Inr st'"
  shows "(if X st' ! 0 ! (2 * length rs) < X_best st ! (2 * length rs)
          then X_best st' = X st' ! 0 \<and> stall st' = 0
          else X_best st' = X_best st \<and> stall st' = stall st + 1)"
proof -
  let ?Nv = "2 * length rs"
  from generation_cases[OF assms] obtain child fchild where
    c0: "(if replaces cfg ?Nv (X st) child fchild
     then update_best ?Nv (sort_pop ?Nv (butlast (X st) @ [child @ [fchild]])) st = Inr st'
     else if Fast = Fast
     then update_best ?Nv (sort_pop ?Nv (X st)) st = Inr st'
     else st' = st)"
    by blast
  then have c: "(if replaces cfg ?Nv (X st) child fchild
     then update_best ?Nv (sort_pop ?Nv (butlast (X st) @ [child @ [fchild]])) st = Inr st'
     else update_best ?Nv (sort_pop ?Nv (X st)) st = Inr st')"
    by simp
  have ub: "\<And>Xs. update_best ?Nv Xs st = Inr st' \<Longrightarrow> ?thesis"
    by (auto simp: update_best_def bindE_eq_Inr py_get_def split: if_splits)
  show ?thesis
    using c ub by (cases "replaces cfg ?Nv (X st) child fchild") simp_all
qed

text \<open>
  C7: the stall counter is reset or incremented in every generation, also in one
  without a replacement. In \<^verbatim>\<open>optimize_all_scenarios.py\<close> it is not: the update is inside
  the replacement branch. In a generation whose child does not pass the gate the counter
  keeps its value, although the best solution did not improve; the fast script counts
  the same generation. On the example the run of \<^verbatim>\<open>optimize_all_scenarios.py\<close> never
  reaches the stagnation limit of one generation and ends at \<^verbatim>\<open>GA_maxGen\<close>.
\<close>

theorem stall_unchanged_without_replacement:
  "generation AllScenarios ex_cfg ex_rs [ex_pair] ex_xmin ex_xmax ex_st0 ex_draw_same = Inr ex_st0 \<and>
   stall ex_st0 = 0 \<and> \<not> X ex_st0 ! 0 ! 4 < X_best ex_st0 ! 4 \<and>
   generation Fast ex_cfg ex_rs [ex_pair] ex_xmin ex_xmax ex_st0 ex_draw_same = Inr ex_st0_stalled \<and>
   stall ex_st0_stalled = 1 \<and>
   ga_run AllScenarios ex_cfg ex_rs [ex_pair] ex_rinit ex_rgen = Inr (ex_st0, 2) \<and>
   ga_run Fast ex_cfg ex_rs [ex_pair] ex_rinit ex_rgen = Inr (ex_st0_stalled, 1)"
  using generation_same_all generation_same_fast ga_run_ex_all ga_run_ex_fast
  by (simp add: ex_st0_def ex_st0_stalled_def)

text \<open>
  C8, as the scripts have it: for a scenario without a relay of a non-blank name the
  function returns the empty dictionary of settings, whatever the random draws are: no
  population is initialized and no generation runs.
\<close>

theorem no_relays_empty_mapping:
  "valid_relays (relays scenario) = [] \<Longrightarrow>
   genetic_algorithm_optimization sc cfg scenario rinit rgen = Inr []"
  by (simp add: genetic_algorithm_optimization_def)

theorem no_relays_empty_mapping_witness:
  "valid_relays (relays blank_scenario) = [] \<and>
   genetic_algorithm_optimization AllScenarios all_scenarios_config blank_scenario ex_rinit ex_rgen
     = Inr []"
proof -
  have v: "valid_relays (relays blank_scenario) = []"
    by (simp add: valid_relays_def blank_scenario_def py_isspace_def)
  from no_relays_empty_mapping[OF v] v show ?thesis by simp
qed

text \<open>
  It does so as an ordinary result: nothing is raised, where the statement of the claim
  has an error.
\<close>

theorem no_relays_no_error_counterexample:
  "genetic_algorithm_optimization Fast fast_config empty_scenario ex_rinit ex_rgen = Inr [] \<and>
   \<not> isl (genetic_algorithm_optimization Fast fast_config empty_scenario ex_rinit ex_rgen)"
  by (simp add: genetic_algorithm_optimization_def empty_scenario_def valid_relays_def)

text \<open>
  With a relay but no pair the first test does not return: the minimum fault current of
  the relay stays infinite, and so does its pickup bound, where the embedding ends.
\<close>

lemma no_pairs_no_early_return:
  "genetic_algorithm_optimization sc cfg pairless_scenario rinit rgen = Inl NonFinite"
  by (simp add: genetic_algorithm_optimization_def pairless_scenario_def valid_relays_def
      py_isspace_def ga_run_def bounds_def xmax_of_def)

text \<open>
  C9, with the hypothesis it needs: when no two individuals of the initial population
  are near-duplicates (all \<^verbatim>\<open>Nv\<close> genes within \<^verbatim>\<open>1e-12\<close>), no two individuals of the final
  population are.
\<close>

theorem gate_keeps_individuals_apart:
  assumes "ga_run sc cfg rs ps rinit rgen = Inr (st', g)"
    and "bounds rs ps = Inr (xmin, xmax)"
    and "initial_state sc cfg rs ps xmin xmax rinit = Inr st0"
    and "no_near_dups (2 * length rs) (X st0)"
  shows "no_near_dups (2 * length rs) (X st')"
proof -
  let ?Nv = "2 * length rs"
  from assms(1) obtain xmin' xmax' st0' where
    b: "bounds rs ps = Inr (xmin', xmax')"
    and i: "initial_state sc cfg rs ps xmin' xmax' rinit = Inr st0'"
    and l: "ga_loop sc cfg rs ps xmin' xmax' rgen 1 st0' = Inr (st', g)"
    by (rule ga_run_cases)
  from b assms(2) have "xmin' = xmin" "xmax' = xmax" by simp_all
  with i l assms(3) have loop: "ga_loop sc cfg rs ps xmin xmax rgen 1 st0 = Inr (st', g)"
    by simp
  have "pop_shape cfg ?Nv (X st') \<and> no_near_dups ?Nv (X st')"
  proof (rule ga_loop_invariant[OF loop, where P = "\<lambda>s. pop_shape cfg ?Nv (X s) \<and> no_near_dups ?Nv (X s)"])
    show "pop_shape cfg ?Nv (X st0) \<and> no_near_dups ?Nv (X st0)"
      using initial_state_shape[OF assms(3)] assms(4) by simp
  next
    fix s n s'
    assume "pop_shape cfg ?Nv (X s) \<and> no_near_dups ?Nv (X s)"
      and "generation sc cfg rs ps xmin xmax s (rgen n) = Inr s'"
    then show "pop_shape cfg ?Nv (X s') \<and> no_near_dups ?Nv (X s')"
      using generation_shape generation_no_near_dups by blast
  qed
  then show ?thesis by simp
qed

theorem gate_keeps_individuals_apart_witness:
  "ga_run Fast ex_cfg ex_rs [ex_pair] ex_rinit2 ex_rgen2 = Inr (ex_st3, 1) \<and>
   bounds ex_rs [ex_pair] = Inr (ex_xmin, ex_xmax) \<and>
   initial_state Fast ex_cfg ex_rs [ex_pair] ex_xmin ex_xmax ex_rinit2 = Inr ex_st2 \<and>
   no_near_dups (2 * length ex_rs) (X ex_st2) \<and>
   no_near_dups (2 * length ex_rs) (X ex_st3)"
proof -
  have n: "no_near_dups (2 * length ex_rs) (X ex_st2)"
    by (simp add: len_ex ex_st2_def near_def ex_other_def ex_mid_def upt_rec)
  from gate_keeps_individuals_apart[OF ga_run_ex2 bounds_ex initial_state_ex2 n]
    ga_run_ex2 bounds_ex initial_state_ex2 n
  show ?thesis by simp
qed

text \<open>
  Without the hypothesis the statement fails: the initialization tests no duplicates.
  When the draws of two individuals coincide, the two are equal from the start, and the
  gate, which looks at children only, leaves them in the population.
\<close>

theorem duplicates_from_initialization_counterexample:
  "valid_rinit ex_rinit \<and> valid_draw ex_cfg 4 (ex_rgen 1) \<and>
   ga_run Fast ex_cfg ex_rs [ex_pair] ex_rinit ex_rgen = Inr (ex_st0_stalled, 1) \<and>
   near 4 (X ex_st0_stalled ! 0) (X ex_st0_stalled ! 1) \<and>
   \<not> no_near_dups 4 (X ex_st0_stalled)"
  using valid_rinit_ex valid_draw_same ga_run_ex_fast
  by (simp add: ex_rgen_def) (simp add: ex_st0_stalled_def near_def upt_rec)

end
